theory Spec2Isabelle
  imports Main "HOL-Library.Multiset"
begin

section \<open>Resilient email service: data model\<close>

text \<open>
  The development embeds \<^verbatim>\<open>EmailService.js\<close> and \<^verbatim>\<open>utils.js\<close>.
  JavaScript numbers that hold counts, delays and \<^verbatim>\<open>Date.now()\<close> readings are
  integers (\<^typ>\<open>int\<close>); strings are \<^typ>\<open>string\<close>; a rejected promise or a thrown
  \<^verbatim>\<open>Error\<close> is \<^term>\<open>Inl\<close> of its message, a fulfilled one \<^term>\<open>Inr\<close> of its value.
  The logger is an external sink that never feeds back into the service, so its calls
  are left out.
\<close>

datatype EmailStatus = Pending | Sent | Failed | Processing

record CircuitState =
  isOpen :: bool
  lastFailureTime :: int
  failureCount :: int
  halfOpenAttempts :: int

record EmailData =
  emailId :: string
  to :: string
  subject :: string
  body :: string

text \<open>
  A provider is a function object: it is identified by reference (\<^term>\<open>ref\<close>) and
  carries the \<^verbatim>\<open>name\<close> property that the messages print.
\<close>

datatype provider = Provider (ref: nat) (name: string)

definition providerName :: "provider \<Rightarrow> string" where
  \<comment> \<open>\<^verbatim>\<open>provider.name || 'unknown'\<close>\<close>
  "providerName p = (if name p = [] then ''unknown'' else name p)"

record EmailService =
  providers :: "provider list"
  currentProviderIndex :: nat
  maxRetries :: int
  initialRetryDelay :: int
  sentEmailIds :: "string set"
  idempotencyWindowMs :: int
  requestTimestamps :: "int list"
  rateLimitWindowMs :: int
  maxRequestsPerWindow :: int
  emailStatuses :: "string \<rightharpoonup> EmailStatus"
  emailQueue :: "(EmailData \<times> nat) list"
  isProcessingQueue :: bool
  circuitBreakers :: "provider \<rightharpoonup> CircuitState"
  circuitBreakerThreshold :: int
  circuitBreakerTimeoutMs :: int
  circuitBreakerHalfOpenAttempts :: int

text \<open>
  A queue entry \<^verbatim>\<open>{ emailData, resolve, reject }\<close> is the pair of the data and the
  number of the promise that \<^verbatim>\<open>resolve\<close> and \<^verbatim>\<open>reject\<close> settle.
\<close>

subsection \<open>Printing numbers\<close>

definition digit_char :: "nat \<Rightarrow> char" where
  "digit_char d = (''0123456789'' ! d)"

fun string_of_nat :: "nat \<Rightarrow> string" where
  "string_of_nat n =
     (if n < 10 then [digit_char n]
      else string_of_nat (n div 10) @ [digit_char (n mod 10)])"

declare string_of_nat.simps [simp del]

definition string_of_int :: "int \<Rightarrow> string" where
  "string_of_int i = (if i < 0 then ''-'' @ string_of_nat (nat (- i)) else string_of_nat (nat i))"

section \<open>The constructor\<close>

record Options =
  opt_maxRetries :: "int option"
  opt_initialRetryDelay :: "int option"
  opt_idempotencyWindowMs :: "int option"
  opt_rateLimitWindowMs :: "int option"
  opt_maxRequestsPerWindow :: "int option"
  opt_circuitBreakerThreshold :: "int option"
  opt_circuitBreakerTimeoutMs :: "int option"
  opt_circuitBreakerHalfOpenAttempts :: "int option"

definition noOptions :: Options where
  \<comment> \<open>\<^verbatim>\<open>options = {}\<close>\<close>
  "noOptions = \<lparr> opt_maxRetries = None, opt_initialRetryDelay = None,
     opt_idempotencyWindowMs = None, opt_rateLimitWindowMs = None,
     opt_maxRequestsPerWindow = None, opt_circuitBreakerThreshold = None,
     opt_circuitBreakerTimeoutMs = None, opt_circuitBreakerHalfOpenAttempts = None \<rparr>"

definition orDefault :: "int option \<Rightarrow> int \<Rightarrow> int" where
  \<comment> \<open>\<^verbatim>\<open>options.x || d\<close>: an absent option and the number 0 are both falsy\<close>
  "orDefault v d = (case v of None \<Rightarrow> d | Some x \<Rightarrow> if x = 0 then d else x)"

definition closedCircuit :: CircuitState where
  "closedCircuit = \<lparr> isOpen = False, lastFailureTime = 0, failureCount = 0, halfOpenAttempts = 0 \<rparr>"

definition constructor :: "provider list \<Rightarrow> Options \<Rightarrow> string + EmailService" where
  "constructor ps options =
     (if ps = [] then Inl ''At least one email provider is required.''
      else Inr \<lparr>
        providers = ps,
        currentProviderIndex = 0,
        maxRetries = orDefault (opt_maxRetries options) 3,
        initialRetryDelay = orDefault (opt_initialRetryDelay options) 100,
        sentEmailIds = {},
        idempotencyWindowMs = orDefault (opt_idempotencyWindowMs options) (60 * 1000),
        requestTimestamps = [],
        rateLimitWindowMs = orDefault (opt_rateLimitWindowMs options) 1000,
        maxRequestsPerWindow = orDefault (opt_maxRequestsPerWindow options) 10,
        emailStatuses = Map.empty,
        emailQueue = [],
        isProcessingQueue = False,
        circuitBreakers = (\<lambda>p. if p \<in> set ps then Some closedCircuit else None),
        circuitBreakerThreshold = orDefault (opt_circuitBreakerThreshold options) 3,
        circuitBreakerTimeoutMs = orDefault (opt_circuitBreakerTimeoutMs options) 5000,
        circuitBreakerHalfOpenAttempts = orDefault (opt_circuitBreakerHalfOpenAttempts options) 1 \<rparr>)"

section \<open>The backoff executor\<close>

text \<open>
  \<^verbatim>\<open>retryWithBackoff(fn, maxRetries, delay, emailId, logger)\<close>. The operation
  \<^verbatim>\<open>fn\<close> is any zero-argument function returning a promise; what the executor sees of
  it is the outcome of its first, second, ... invocation, so it is given as a function
  from the invocation index (the value of \<^verbatim>\<open>attempt\<close>, which counts the failures so
  far) to the outcome. The executor returns its own outcome together with what it did to
  the outside world, in order: each call of \<^verbatim>\<open>fn\<close> and each \<^verbatim>\<open>sleep(ms)\<close>.
\<close>

datatype effect = Invoke | Sleep int

function retryLoop ::
  "(nat \<Rightarrow> string + string) \<Rightarrow> int \<Rightarrow> string \<Rightarrow> nat \<Rightarrow> int \<Rightarrow> string option
     \<Rightarrow> (string + string) \<times> effect list" where
  "retryLoop fn maxRetries' emailId' attempt currentDelay lastError =
     (if int attempt \<le> maxRetries' then
        (case fn attempt of
           Inr result \<Rightarrow> (Inr result, [Invoke])
         | Inl error \<Rightarrow>
             (if int (attempt + 1) \<le> maxRetries' then
                (let rest = retryLoop fn maxRetries' emailId' (attempt + 1) (currentDelay * 2) (Some error)
                 in (fst rest, Invoke # Sleep (currentDelay * 2) # snd rest))
              else
                (let rest = retryLoop fn maxRetries' emailId' (attempt + 1) currentDelay (Some error)
                 in (fst rest, Invoke # snd rest))))
      else
        (Inl (''Failed after '' @ string_of_int (maxRetries' + 1) @ '' attempts for email '' @ emailId'
              @ ''. Last error: '' @ (case lastError of Some m \<Rightarrow> m | None \<Rightarrow> ''Unknown error'')),
         []))"
  by pat_completeness auto
termination
  by (relation "measure (\<lambda>(fn, maxRetries', emailId', attempt, currentDelay, lastError).
                   nat (maxRetries' + 1 - int attempt))") auto

declare retryLoop.simps [simp del]

definition retryWithBackoff ::
  "(nat \<Rightarrow> string + string) \<Rightarrow> int \<Rightarrow> int \<Rightarrow> string \<Rightarrow> (string + string) \<times> effect list" where
  "retryWithBackoff fn maxRetries' delay emailId' = retryLoop fn maxRetries' emailId' 0 delay None"

definition invocationCount :: "effect list \<Rightarrow> nat" where
  "invocationCount es = length (filter (\<lambda>e. e = Invoke) es)"

fun delays :: "effect list \<Rightarrow> int list" where
  "delays [] = []"
| "delays (Invoke # es) = delays es"
| "delays (Sleep d # es) = d # delays es"

definition exhaustedMessage :: "int \<Rightarrow> string \<Rightarrow> string \<Rightarrow> string" where
  "exhaustedMessage maxRetries' emailId' lastMessage =
     ''Failed after '' @ string_of_int (maxRetries' + 1) @ '' attempts for email '' @ emailId'
       @ ''. Last error: '' @ lastMessage"

subsection \<open>The executor on the event loop\<close>

text \<open>
  On the event loop the executor does not run in one go: it is suspended at
  \<^verbatim>\<open>await fn()\<close> (\<open>Invoking attempt currentDelay\<close>) or at
  \<^verbatim>\<open>await sleep(currentDelay)\<close> (\<open>Sleeping attempt currentDelay lastError due\<close>,
  the timer of the sleep being due at \<open>due\<close>), or it has returned or thrown and its
  caller has not been resumed yet (\<open>Finished outcome\<close>). \<open>retryStart\<close> is the call up
  to the first \<^verbatim>\<open>await\<close>, \<open>invocationSettled\<close> what follows when the awaited
  invocation settles at time \<open>now\<close>, \<open>sleepEnded\<close> what follows the sleep: the loop
  test and, when it holds, the next invocation.
\<close>

datatype retryState =
    Invoking nat int
  | Sleeping nat int string int
  | Finished "string + string"

definition retryStart :: "int \<Rightarrow> int \<Rightarrow> string \<Rightarrow> retryState" where
  "retryStart maxRetries' delay emailId' =
     (if 0 \<le> maxRetries' then Invoking 0 delay
      else Finished (Inl (exhaustedMessage maxRetries' emailId' ''Unknown error'')))"

definition invocationSettled ::
  "int \<Rightarrow> string \<Rightarrow> int \<Rightarrow> nat \<Rightarrow> int \<Rightarrow> string + string \<Rightarrow> retryState" where
  "invocationSettled maxRetries' emailId' now attempt currentDelay outcome =
     (case outcome of
        Inr result \<Rightarrow> Finished (Inr result)
      | Inl error \<Rightarrow>
          (if int (attempt + 1) \<le> maxRetries'
           then Sleeping (attempt + 1) (currentDelay * 2) error (now + currentDelay * 2)
           else Finished (Inl (exhaustedMessage maxRetries' emailId' error))))"

definition sleepEnded :: "int \<Rightarrow> string \<Rightarrow> nat \<Rightarrow> int \<Rightarrow> string \<Rightarrow> retryState" where
  "sleepEnded maxRetries' emailId' attempt currentDelay lastError =
     (if int attempt \<le> maxRetries' then Invoking attempt currentDelay
      else Finished (Inl (exhaustedMessage maxRetries' emailId' lastError)))"

text \<open>
  The suspended executor driven to its end by an operation given, as above, by the outcomes
  of its invocations.
\<close>

function retryRun ::
  "(nat \<Rightarrow> string + string) \<Rightarrow> int \<Rightarrow> string \<Rightarrow> retryState \<Rightarrow> (string + string) \<times> effect list" where
  "retryRun fn maxRetries' emailId' (Finished outcome) = (outcome, [])"
| "retryRun fn maxRetries' emailId' (Invoking attempt currentDelay) =
     (let rest = retryRun fn maxRetries' emailId'
                   (invocationSettled maxRetries' emailId' 0 attempt currentDelay (fn attempt))
      in (fst rest, Invoke # snd rest))"
| "retryRun fn maxRetries' emailId' (Sleeping attempt currentDelay lastError due) =
     (let rest = retryRun fn maxRetries' emailId'
                   (sleepEnded maxRetries' emailId' attempt currentDelay lastError)
      in (fst rest, Sleep currentDelay # snd rest))"
  by pat_completeness auto
termination
  by (relation "measure (\<lambda>(fn, maxRetries', emailId', st).
          case st of Finished outcome \<Rightarrow> 0
          | Invoking attempt currentDelay \<Rightarrow> 2 * nat (maxRetries' + 1 - int attempt) + 1
          | Sleeping attempt currentDelay lastError due \<Rightarrow> 2 * nat (maxRetries' + 1 - int attempt) + 2)")
     (auto simp: invocationSettled_def sleepEnded_def split: sum.splits if_splits)

section \<open>The circuit breaker registry\<close>

definition isCircuitOpen :: "int \<Rightarrow> provider \<Rightarrow> EmailService \<Rightarrow> bool \<times> EmailService" where
  \<comment> \<open>\<^verbatim>\<open>_isCircuitOpen(provider)\<close>, with \<^verbatim>\<open>Date.now()\<close> as the first argument\<close>
  "isCircuitOpen now p s =
     (case circuitBreakers s p of
        None \<Rightarrow> (False, s)
      | Some state \<Rightarrow>
          (if isOpen state then
             (if now - lastFailureTime state > circuitBreakerTimeoutMs s then
                (False, s\<lparr>circuitBreakers :=
                   (circuitBreakers s)(p \<mapsto> state\<lparr>isOpen := False, halfOpenAttempts := 0\<rparr>)\<rparr>)
              else (True, s))
           else (False, s)))"

definition recordFailure :: "int \<Rightarrow> provider \<Rightarrow> EmailService \<Rightarrow> EmailService" where
  \<comment> \<open>\<^verbatim>\<open>_recordFailure(provider)\<close>\<close>
  "recordFailure now p s =
     (case circuitBreakers s p of
        None \<Rightarrow> s
      | Some state \<Rightarrow>
          (let state1 = state\<lparr>failureCount := failureCount state + 1, lastFailureTime := now\<rparr>;
               state2 = (if \<not> isOpen state1 \<and> failureCount state1 \<ge> circuitBreakerThreshold s
                         then state1\<lparr>isOpen := True\<rparr> else state1)
           in s\<lparr>circuitBreakers := (circuitBreakers s)(p \<mapsto> state2)\<rparr>))"

definition recordSuccess :: "provider \<Rightarrow> EmailService \<Rightarrow> EmailService" where
  \<comment> \<open>\<^verbatim>\<open>_recordSuccess(provider)\<close>\<close>
  "recordSuccess p s =
     (case circuitBreakers s p of
        None \<Rightarrow> s
      | Some state \<Rightarrow>
          s\<lparr>circuitBreakers :=
              (circuitBreakers s)(p \<mapsto> state\<lparr>isOpen := False, failureCount := 0, halfOpenAttempts := 0\<rparr>)\<rparr>)"

section \<open>The rate admission controller\<close>

definition isRateLimited :: "int \<Rightarrow> EmailService \<Rightarrow> bool \<times> EmailService" where
  \<comment> \<open>\<^verbatim>\<open>_isRateLimited()\<close>, with \<^verbatim>\<open>Date.now()\<close> as the first argument\<close>
  "isRateLimited now s =
     (let s1 = s\<lparr>requestTimestamps :=
                  filter (\<lambda>timestamp. now - timestamp < rateLimitWindowMs s) (requestTimestamps s)\<rparr>
      in if int (length (requestTimestamps s1)) \<ge> maxRequestsPerWindow s1 then (True, s1)
         else (False, s1\<lparr>requestTimestamps := requestTimestamps s1 @ [now]\<rparr>))"

section \<open>The dispatcher on the event loop\<close>

text \<open>
  \<^verbatim>\<open>sendEmail\<close>, \<^verbatim>\<open>_processSend\<close> and \<^verbatim>\<open>_processQueue\<close> are \<^verbatim>\<open>async\<close>
  functions: each runs without interruption up to its next \<^verbatim>\<open>await\<close>, is suspended
  there, and is resumed later by the event loop, while other submissions may run in
  between. The model follows this. A handler is one uninterrupted run; it reads
  \<^verbatim>\<open>Date.now()\<close> as the time \<open>now\<close> of the event that started it. What is suspended is
  kept in a pool of frames. The service awaits in two places:
  \<^item> \<^verbatim>\<open>await retryWithBackoff(...)\<close> in \<^verbatim>\<open>_processSend\<close>. The frame holds the state
    of the executor, which goes on by events of its own: an invocation of the provider
    settles, a sleep ends (and the provider is invoked again), and at last
    \<^verbatim>\<open>_processSend\<close> is resumed with the executor's outcome.
  \<^item> \<^verbatim>\<open>await this._processSend(emailData)\<close> in \<^verbatim>\<open>_processQueue\<close>.
  The pending \<^verbatim>\<open>setTimeout\<close> callbacks are kept with the time they are due.
  \<^verbatim>\<open>_cleanupIdempotencySet\<close> is called by no code path of the service and is not an
  event of the model.
\<close>

text \<open>
  Who waits for a send: the caller of \<^verbatim>\<open>sendEmail\<close> (\<open>Direct\<close>, with the promise
  \<^verbatim>\<open>sendEmail\<close> returned) or the drain loop (\<open>FromQueue\<close>, with the promise of the
  queue entry).
\<close>

datatype origin = Direct nat | FromQueue nat

text \<open>
  \<open>AwaitRetry emailData i providerIndex provider origin state\<close>: \<^verbatim>\<open>_processSend\<close>
  suspended in iteration \<open>i\<close> of its loop, the retry sequence against \<open>provider\<close> in
  \<open>state\<close>. \<open>AwaitSend promise outcome\<close>: the drain loop suspended at its
  \<^verbatim>\<open>await\<close>, the send it waits for already settled with \<open>outcome\<close>.
\<close>

datatype frame =
    AwaitRetry EmailData nat nat provider origin retryState
  | AwaitSend nat "string + string"

text \<open>
  Besides the service and what is suspended, the runtime records what the outside world
  sees: \<open>settled\<close>, the promises settled so far with their outcomes, and \<open>contacts\<close>,
  the invocations of provider functions with the email they were given, in the order in
  which they are made.
\<close>

record Runtime =
  service :: EmailService
  frames :: "frame list"
  timers :: "int list"
  settled :: "(nat \<times> (string + string)) list"
  contacts :: "(provider \<times> EmailData) list"
  nextPromise :: nat
  clock :: int

subsection \<open>\<^verbatim>\<open>_processSend\<close>: the fallback loop\<close>

text \<open>
  The \<^verbatim>\<open>for\<close> loop from iteration \<open>i\<close> up to its first \<^verbatim>\<open>await\<close>. A provider whose
  circuit blocks is skipped with \<^verbatim>\<open>continue\<close>. For the first provider that does not
  block, \<^verbatim>\<open>retryWithBackoff\<close> is called; it invokes the provider at once (when
  \<open>0 \<le> maxRetries\<close>) and the send is suspended. When no provider is left the loop ends
  with the last error.
\<close>

datatype loopExit = Awaiting | Exhausted "string option"

function providerLoop ::
  "int \<Rightarrow> EmailData \<Rightarrow> origin \<Rightarrow> nat \<Rightarrow> string option \<Rightarrow> Runtime \<Rightarrow> loopExit \<times> Runtime" where
  "providerLoop now d orig i lastError rt =
     (if i < length (providers (service rt)) then
        (let providerIndex = (currentProviderIndex (service rt) + i) mod length (providers (service rt));
             provider = providers (service rt) ! providerIndex
         in case isCircuitOpen now provider (service rt) of
              (True, s1) \<Rightarrow>
                providerLoop now d orig (i + 1) (Some (''Circuit open for '' @ providerName provider))
                  (rt\<lparr>service := s1\<rparr>)
            | (False, s1) \<Rightarrow>
                (Awaiting,
                 rt\<lparr>service := s1,
                    frames := frames rt @ [AwaitRetry d i providerIndex provider orig
                       (retryStart (maxRetries s1) (initialRetryDelay s1) (emailId d))],
                    contacts := contacts rt @ (if 0 \<le> maxRetries s1 then [(provider, d)] else [])\<rparr>))
      else (Exhausted lastError, rt))"
  by pat_completeness auto
termination
  by (relation "measure (\<lambda>(now, d, orig, i, lastError, rt). length (providers (service rt)) - i)")
     (auto simp: isCircuitOpen_def split: option.splits if_splits)

declare providerLoop.simps [simp del]

text \<open>
  The end of a send: the caller's promise is settled, or the drain loop that awaits the
  send gets its continuation scheduled.
\<close>

definition deliver :: "origin \<Rightarrow> string + string \<Rightarrow> Runtime \<Rightarrow> Runtime" where
  "deliver orig outcome rt =
     (case orig of
        Direct promise \<Rightarrow> rt\<lparr>settled := settled rt @ [(promise, outcome)]\<rparr>
      | FromQueue promise \<Rightarrow> rt\<lparr>frames := frames rt @ [AwaitSend promise outcome]\<rparr>)"

text \<open>
  The end of \<^verbatim>\<open>_processQueue\<close>, after the \<^verbatim>\<open>while\<close> loop: the flag is cleared and,
  if entries are left, a retry is scheduled \<open>rateLimitWindowMs + 10\<close> ms later.
\<close>

definition leaveDrain :: "int \<Rightarrow> Runtime \<Rightarrow> Runtime" where
  "leaveDrain now rt =
     (let rt1 = rt\<lparr>service := (service rt)\<lparr>isProcessingQueue := False\<rparr>\<rparr>
      in if emailQueue (service rt1) \<noteq> []
         then rt1\<lparr>timers := timers rt1 @ [now + (rateLimitWindowMs (service rt1) + 10)]\<rparr>
         else rt1)"

definition allFailedMessage :: "string \<Rightarrow> string option \<Rightarrow> string" where
  "allFailedMessage emailId' lastError =
     ''All providers failed for email '' @ emailId' @ ''. Last error: ''
       @ (case lastError of Some m \<Rightarrow> m | None \<Rightarrow> ''Unknown error.'')"

text \<open>The circuit check changes nothing but the circuit table; the fallback loop keeps the drain flag.\<close>

lemma isCircuitOpen_fields [simp]:
  "providers (snd (isCircuitOpen now p s)) = providers s"
  "currentProviderIndex (snd (isCircuitOpen now p s)) = currentProviderIndex s"
  "maxRetries (snd (isCircuitOpen now p s)) = maxRetries s"
  "initialRetryDelay (snd (isCircuitOpen now p s)) = initialRetryDelay s"
  "sentEmailIds (snd (isCircuitOpen now p s)) = sentEmailIds s"
  "requestTimestamps (snd (isCircuitOpen now p s)) = requestTimestamps s"
  "rateLimitWindowMs (snd (isCircuitOpen now p s)) = rateLimitWindowMs s"
  "maxRequestsPerWindow (snd (isCircuitOpen now p s)) = maxRequestsPerWindow s"
  "emailStatuses (snd (isCircuitOpen now p s)) = emailStatuses s"
  "emailQueue (snd (isCircuitOpen now p s)) = emailQueue s"
  "isProcessingQueue (snd (isCircuitOpen now p s)) = isProcessingQueue s"
  "circuitBreakerThreshold (snd (isCircuitOpen now p s)) = circuitBreakerThreshold s"
  "circuitBreakerTimeoutMs (snd (isCircuitOpen now p s)) = circuitBreakerTimeoutMs s"
  by (simp_all add: isCircuitOpen_def split: option.splits)

lemma providerLoop_keeps_flag: "isProcessingQueue (service (snd (providerLoop now d orig i lastError rt)))
                = isProcessingQueue (service rt)"
proof (induction now d orig i lastError rt rule: providerLoop.induct)
  case (1 now d orig i lastError rt)
  show ?case
  proof (cases "i < length (providers (service rt))")
    case False
    then show ?thesis by (subst providerLoop.simps) simp
  next
    case True
    let ?p = "providers (service rt) ! ((currentProviderIndex (service rt) + i) mod length (providers (service rt)))"
    obtain b s1 where co: "isCircuitOpen now ?p (service rt) = (b, s1)" by force
    have s1: "isProcessingQueue s1 = isProcessingQueue (service rt)"
      using isCircuitOpen_fields(11) [of now ?p "service rt"] co by simp
    show ?thesis
      using True co s1 "1.IH"
      by (subst providerLoop.simps) (auto simp: Let_def split: bool.splits)
  qed
qed

subsection \<open>\<^verbatim>\<open>_processSend\<close> and \<^verbatim>\<open>_processQueue\<close>\<close>

text \<open>
  \<open>processSendFrom\<close> is \<^verbatim>\<open>_processSend\<close> from iteration \<open>i\<close> of its loop on
  (\<^verbatim>\<open>_processSend(emailData)\<close> itself is iteration 0 with no last error): when every
  provider is exhausted the status becomes \<^verbatim>\<open>'failed'\<close>, the \<^verbatim>\<open>finally\<close> block calls
  \<^verbatim>\<open>_processQueue()\<close> and the aggregate error is delivered. \<open>processQueue\<close> is
  \<^verbatim>\<open>_processQueue\<close> up to its first \<^verbatim>\<open>await\<close>, \<open>drainLoop\<close> its \<^verbatim>\<open>while\<close>
  loop from the loop test on. The three call each other as in the source; the recursion
  ends because a drain sets \<open>isProcessingQueue\<close> and \<^verbatim>\<open>_processQueue\<close> returns at once
  when it is set.
\<close>

function processSendFrom ::
    "int \<Rightarrow> EmailData \<Rightarrow> origin \<Rightarrow> nat \<Rightarrow> string option \<Rightarrow> Runtime \<Rightarrow> Runtime"
  and processQueue :: "int \<Rightarrow> Runtime \<Rightarrow> Runtime"
  and drainLoop :: "int \<Rightarrow> Runtime \<Rightarrow> Runtime" where
  "processSendFrom now d orig i lastError rt =
     (case providerLoop now d orig i lastError rt of
        (Awaiting, rt1) \<Rightarrow> rt1
      | (Exhausted lastError1, rt1) \<Rightarrow>
          deliver orig (Inl (allFailedMessage (emailId d) lastError1))
            (processQueue now
               (rt1\<lparr>service := (service rt1)\<lparr>emailStatuses :=
                  (emailStatuses (service rt1))(emailId d \<mapsto> Failed)\<rparr>\<rparr>)))"
| "processQueue now rt =
     (if isProcessingQueue (service rt) \<or> emailQueue (service rt) = [] then rt
      else drainLoop now (rt\<lparr>service := (service rt)\<lparr>isProcessingQueue := True\<rparr>\<rparr>))"
| "drainLoop now rt =
     (case emailQueue (service rt) of
        [] \<Rightarrow> leaveDrain now rt
      | entry # rest \<Rightarrow>
          (case isRateLimited now (service rt) of
             (True, s1) \<Rightarrow> leaveDrain now (rt\<lparr>service := s1\<rparr>)
           | (False, s1) \<Rightarrow>
               processSendFrom now (fst entry) (FromQueue (snd entry)) 0 None
                 (rt\<lparr>service := s1\<lparr>emailQueue := rest\<rparr>\<rparr>)))"
  by pat_completeness auto
termination
proof (relation "measure (\<lambda>x. case x of
          Inl (now, d, orig, i, lastError, rt) \<Rightarrow> (if isProcessingQueue (service rt) then 1 else 4)
        | Inr (Inl (now, rt)) \<Rightarrow>
            (if isProcessingQueue (service rt) \<or> emailQueue (service rt) = [] then 0 else 3)
        | Inr (Inr (now, rt)) \<Rightarrow> (if isProcessingQueue (service rt) then 2 else 5))",
       goal_cases)
  case 1
  show ?case by simp
next
  case (2 now d orig i lastError rt x1 rt1 lastError1)
  from 2 have "snd (providerLoop now d orig i lastError rt) = rt1" by (metis snd_conv)
  with providerLoop_keeps_flag [of now d orig i lastError rt]
  have "isProcessingQueue (service rt1) = isProcessingQueue (service rt)" by simp
  then show ?case by simp
next
  case (3 now rt)
  then show ?case by simp
next
  case (4 now rt entry rest x1 s1)
  then have "isProcessingQueue s1 = isProcessingQueue (service rt)"
    by (auto simp: isRateLimited_def Let_def split: if_splits)
  then show ?case by simp
qed

declare processSendFrom.simps [simp del] processQueue.simps [simp del] drainLoop.simps [simp del]


subsection \<open>\<^verbatim>\<open>sendEmail\<close>\<close>

definition statusName :: "EmailStatus \<Rightarrow> string" where
  "statusName st =
     (case st of Pending \<Rightarrow> ''pending'' | Sent \<Rightarrow> ''sent'' | Failed \<Rightarrow> ''failed''
               | Processing \<Rightarrow> ''processing'')"

text \<open>
  What \<^verbatim>\<open>sendEmail\<close> hands back: a promise already rejected (invalid data) or already
  resolved (the idempotency notice), the promise of a new queue entry (\<open>Deferred\<close>), or
  the promise of the send it started (\<open>Started\<close>).
\<close>

datatype sendResult = Rejected string | Resolved string | Deferred nat | Started nat

definition sendEmail :: "int \<Rightarrow> EmailData \<Rightarrow> Runtime \<Rightarrow> sendResult \<times> Runtime" where
  "sendEmail now emailData rt =
     (if emailId emailData = [] \<or> to emailData = [] \<or> subject emailData = [] \<or> body emailData = []
      then (Rejected ''Email data must include emailId, to, subject, and body.'', rt)
      else if emailId emailData \<in> sentEmailIds (service rt)
      then (Resolved (''Email with ID '' @ emailId emailData @ '' was already sent. Current status: ''
                      @ (case emailStatuses (service rt) (emailId emailData) of
                           Some st \<Rightarrow> statusName st | None \<Rightarrow> ''unknown'')), rt)
      else
        (case isRateLimited now (service rt) of
           (True, s1) \<Rightarrow>
             (Deferred (nextPromise rt),
              processQueue now
                (rt\<lparr>service := s1\<lparr>emailQueue := emailQueue s1 @ [(emailData, nextPromise rt)]\<rparr>,
                    nextPromise := nextPromise rt + 1\<rparr>))
         | (False, s1) \<Rightarrow>
             (Started (nextPromise rt),
              processSendFrom now emailData (Direct (nextPromise rt)) 0 None
                (rt\<lparr>service := s1\<lparr>sentEmailIds := insert (emailId emailData) (sentEmailIds s1),
                                   emailStatuses := (emailStatuses s1)(emailId emailData \<mapsto> Processing)\<rparr>,
                    nextPromise := nextPromise rt + 1\<rparr>))))"

subsection \<open>Resumptions\<close>

definition removeFrame :: "nat \<Rightarrow> Runtime \<Rightarrow> Runtime" where
  "removeFrame k rt = rt\<lparr>frames := take k (frames rt) @ drop (Suc k) (frames rt)\<rparr>"

text \<open>
  The awaited invocation of the provider settles with \<open>outcome\<close>: the executor returns,
  goes to sleep, or gives up. (The executor's \<open>maxRetries\<close> is the service's, which
  nothing changes after construction.)
\<close>

definition invocationSettles :: "int \<Rightarrow> nat \<Rightarrow> string + string \<Rightarrow> Runtime \<Rightarrow> Runtime option" where
  "invocationSettles now k outcome rt =
     (if k < length (frames rt) then
        (case frames rt ! k of
           AwaitRetry d i providerIndex provider orig st \<Rightarrow>
             (case st of
                Invoking attempt currentDelay \<Rightarrow>
                  Some (rt\<lparr>frames := (frames rt)[k := AwaitRetry d i providerIndex provider orig
                          (invocationSettled (maxRetries (service rt)) (emailId d) now
                             attempt currentDelay outcome)]\<rparr>)
              | Sleeping attempt currentDelay lastError due \<Rightarrow> None
              | Finished result \<Rightarrow> None)
         | AwaitSend promise result \<Rightarrow> None)
      else None)"

text \<open>
  The timer of a sleep is due: the executor tests its loop condition and invokes the
  provider again. Nothing here looks at the provider's circuit.
\<close>

definition sleepEnds :: "int \<Rightarrow> nat \<Rightarrow> Runtime \<Rightarrow> Runtime option" where
  "sleepEnds now k rt =
     (if k < length (frames rt) then
        (case frames rt ! k of
           AwaitRetry d i providerIndex provider orig st \<Rightarrow>
             (case st of
                Sleeping attempt currentDelay lastError due \<Rightarrow>
                  (if due \<le> now then
                     Some (rt\<lparr>frames := (frames rt)[k := AwaitRetry d i providerIndex provider orig
                                (sleepEnded (maxRetries (service rt)) (emailId d)
                                   attempt currentDelay lastError)],
                              contacts := contacts rt
                                @ (if int attempt \<le> maxRetries (service rt) then [(provider, d)] else [])\<rparr>)
                   else None)
              | Invoking attempt currentDelay \<Rightarrow> None
              | Finished result \<Rightarrow> None)
         | AwaitSend promise result \<Rightarrow> None)
      else None)"

text \<open>
  \<^verbatim>\<open>_processSend\<close> after \<^verbatim>\<open>await retryWithBackoff(...)\<close>, resumed with the
  executor's outcome: a result is recorded as a success and returned, an error is recorded
  as a failure and the loop goes on with the next provider.
\<close>

definition resumeRetry :: "int \<Rightarrow> nat \<Rightarrow> Runtime \<Rightarrow> Runtime option" where
  "resumeRetry now k rt =
     (if k < length (frames rt) then
        (case frames rt ! k of
           AwaitRetry d i providerIndex provider orig st \<Rightarrow>
             (case st of
                Finished outcome \<Rightarrow>
                  (let rt1 = removeFrame k rt
                   in case outcome of
                        Inr result \<Rightarrow>
                          (let s2 = recordSuccess provider (service rt1)
                           in Some (deliver orig (Inr result)
                                (processQueue now
                                   (rt1\<lparr>service := s2\<lparr>emailStatuses := (emailStatuses s2)(emailId d \<mapsto> Sent),
                                                      currentProviderIndex := providerIndex\<rparr>\<rparr>))))
                      | Inl error \<Rightarrow>
                          Some (processSendFrom now d orig (i + 1) (Some error)
                            (rt1\<lparr>service := recordFailure now provider (service rt1)\<rparr>)))
              | Invoking attempt currentDelay \<Rightarrow> None
              | Sleeping attempt currentDelay lastError due \<Rightarrow> None)
         | AwaitSend promise outcome \<Rightarrow> None)
      else None)"

text \<open>
  \<^verbatim>\<open>_processQueue\<close> after \<^verbatim>\<open>await this._processSend(emailData)\<close>: the entry's
  \<^verbatim>\<open>resolve\<close> or \<^verbatim>\<open>reject\<close> is called and the loop goes on.
\<close>

definition resumeDrain :: "int \<Rightarrow> nat \<Rightarrow> Runtime \<Rightarrow> Runtime option" where
  "resumeDrain now k rt =
     (if k < length (frames rt) then
        (case frames rt ! k of
           AwaitSend promise outcome \<Rightarrow>
             Some (drainLoop now ((removeFrame k rt)\<lparr>settled := settled rt @ [(promise, outcome)]\<rparr>))
         | AwaitRetry d i providerIndex provider orig st \<Rightarrow> None)
      else None)"

text \<open>A \<^verbatim>\<open>setTimeout\<close> callback that is due runs \<^verbatim>\<open>_processQueue()\<close>.\<close>

definition timerFired :: "int \<Rightarrow> nat \<Rightarrow> Runtime \<Rightarrow> Runtime option" where
  "timerFired now k rt =
     (if k < length (timers rt) \<and> timers rt ! k \<le> now then
        Some (processQueue now (rt\<lparr>timers := take k (timers rt) @ drop (Suc k) (timers rt)\<rparr>))
      else None)"

subsection \<open>Runs\<close>

text \<open>
  The events of the loop, each at a clock reading that never goes back. \<open>run\<close> is
  \<open>None\<close> when an event is not enabled (no such frame or timer, a frame in another
  state, or a timer not yet due).
\<close>

datatype event =
    Submit EmailData
  | InvocationSettles nat "string + string"
  | SleepEnds nat
  | RetryResumes nat
  | DrainResumes nat
  | TimerFires nat

definition step :: "int \<Rightarrow> event \<Rightarrow> Runtime \<Rightarrow> Runtime option" where
  "step now ev rt =
     (if now < clock rt then None
      else (case ev of
              Submit emailData \<Rightarrow> Some (snd (sendEmail now emailData (rt\<lparr>clock := now\<rparr>)))
            | InvocationSettles k outcome \<Rightarrow> invocationSettles now k outcome (rt\<lparr>clock := now\<rparr>)
            | SleepEnds k \<Rightarrow> sleepEnds now k (rt\<lparr>clock := now\<rparr>)
            | RetryResumes k \<Rightarrow> resumeRetry now k (rt\<lparr>clock := now\<rparr>)
            | DrainResumes k \<Rightarrow> resumeDrain now k (rt\<lparr>clock := now\<rparr>)
            | TimerFires k \<Rightarrow> timerFired now k (rt\<lparr>clock := now\<rparr>)))"

fun run :: "(int \<times> event) list \<Rightarrow> Runtime \<Rightarrow> Runtime option" where
  "run [] rt = Some rt"
| "run ((now, ev) # rest) rt = (case step now ev rt of None \<Rightarrow> None | Some rt1 \<Rightarrow> run rest rt1)"

definition start :: "EmailService \<Rightarrow> Runtime" where
  "start s = \<lparr> service = s, frames = [], timers = [], settled = [], contacts = [],
               nextPromise = 0, clock = 0 \<rparr>"

section \<open>Observations and invariants\<close>

primrec originPromise :: "origin \<Rightarrow> nat" where
  "originPromise (Direct promise) = promise"
| "originPromise (FromQueue promise) = promise"

primrec framePromise :: "frame \<Rightarrow> nat" where
  "framePromise (AwaitRetry d i providerIndex provider orig st) = originPromise orig"
| "framePromise (AwaitSend promise outcome) = promise"

primrec isDrainFrame :: "frame \<Rightarrow> bool" where
  "isDrainFrame (AwaitRetry d i providerIndex provider orig st) =
     (case orig of Direct promise \<Rightarrow> False | FromQueue promise \<Rightarrow> True)"
| "isDrainFrame (AwaitSend promise outcome) = True"

text \<open>
  A drain pass that is under way is suspended at exactly one frame: the send it awaits or
  its own continuation.
\<close>

definition drainPasses :: "Runtime \<Rightarrow> nat" where
  "drainPasses rt = length (filter isDrainFrame (frames rt))"

text \<open>Every promise handed out is in the queue, held by a frame, or settled.\<close>

definition allPromises :: "Runtime \<Rightarrow> nat list" where
  "allPromises rt =
     map snd (emailQueue (service rt)) @ map framePromise (frames rt) @ map fst (settled rt)"

text \<open>\<^verbatim>\<open>getEmailStatus(emailId)\<close>\<close>

definition getEmailStatus :: "string \<Rightarrow> Runtime \<Rightarrow> EmailStatus option" where
  "getEmailStatus emailId' rt = emailStatuses (service rt) emailId'"

definition drainConsistent :: "Runtime \<Rightarrow> bool" where
  "drainConsistent rt \<longleftrightarrow> drainPasses rt = (if isProcessingQueue (service rt) then 1 else 0)"

definition midDrain :: "Runtime \<Rightarrow> bool" where
  "midDrain rt \<longleftrightarrow> isProcessingQueue (service rt) \<and> drainPasses rt = 0"

definition noPending :: "Runtime \<Rightarrow> bool" where
  "noPending rt \<longleftrightarrow> (\<forall>emailId'. getEmailStatus emailId' rt \<noteq> Some Pending)"

definition wellFormed :: "Runtime \<Rightarrow> bool" where
  "wellFormed rt \<longleftrightarrow>
     drainConsistent rt \<and> noPending rt \<and> mset (allPromises rt) = mset [0..<nextPromise rt]"

definition validEmail :: "EmailData \<Rightarrow> bool" where
  "validEmail d \<longleftrightarrow> emailId d \<noteq> [] \<and> to d \<noteq> [] \<and> subject d \<noteq> [] \<and> body d \<noteq> []"




text \<open>
  The circuit of \<open>p\<close> blocks at time \<open>now\<close>: it is open and no more than
  \<open>circuitBreakerTimeoutMs\<close> have passed since the last failure.
\<close>

definition blocking :: "int \<Rightarrow> provider \<Rightarrow> EmailService \<Rightarrow> bool" where
  "blocking now p s =
     (case circuitBreakers s p of
        None \<Rightarrow> False
      | Some state \<Rightarrow> isOpen state \<and> \<not> (now - lastFailureTime state > circuitBreakerTimeoutMs s))"

primrec frameProvider :: "frame \<Rightarrow> provider option" where
  "frameProvider (AwaitRetry d i providerIndex provider orig st) = Some provider"
| "frameProvider (AwaitSend promise outcome) = None"




section \<open>Drivers and sample inputs\<close>

text \<open>Any number of admission checks in a row, at the given clock readings.\<close>

fun admissionChecks :: "int list \<Rightarrow> EmailService \<Rightarrow> EmailService" where
  "admissionChecks [] s = s"
| "admissionChecks (now # rest) s = admissionChecks rest (snd (isRateLimited now s))"

definition alwaysFails :: "nat \<Rightarrow> string + string" where
  "alwaysFails k = Inl ''provider down''"

definition secondSucceeds :: "nat \<Rightarrow> string + string" where
  "secondSucceeds k = (if k = 1 then Inr ''delivered'' else Inl ''provider down'')"

definition zeroOptions :: Options where
  "zeroOptions = \<lparr> opt_maxRetries = Some 0, opt_initialRetryDelay = Some 0,
     opt_idempotencyWindowMs = Some 0, opt_rateLimitWindowMs = Some 0,
     opt_maxRequestsPerWindow = Some 0, opt_circuitBreakerThreshold = Some 0,
     opt_circuitBreakerTimeoutMs = Some 0, opt_circuitBreakerHalfOpenAttempts = Some 0 \<rparr>"

definition providerA :: provider where
  "providerA = Provider 0 ''providerA''"

definition providerB :: provider where
  "providerB = Provider 1 ''providerB''"

definition smallOptions :: Options where
  \<comment> \<open>one request per 1000 ms window, one retry, circuit opens after 2 failures for 100 ms\<close>
  "smallOptions = \<lparr> opt_maxRetries = Some 1, opt_initialRetryDelay = Some 100,
     opt_idempotencyWindowMs = None, opt_rateLimitWindowMs = Some 1000,
     opt_maxRequestsPerWindow = Some 1, opt_circuitBreakerThreshold = Some 2,
     opt_circuitBreakerTimeoutMs = Some 100, opt_circuitBreakerHalfOpenAttempts = None \<rparr>"

definition smallService :: EmailService where
  "smallService = projr (constructor [providerA] smallOptions)"

text \<open>Sample emails, provider behaviours and runs.\<close>

definition mailX :: EmailData where
  "mailX = \<lparr> emailId = ''x'', to = ''x@example.com'', subject = ''hello'', body = ''first'' \<rparr>"

definition mailY :: EmailData where
  "mailY = \<lparr> emailId = ''y'', to = ''y@example.com'', subject = ''hello'', body = ''second'' \<rparr>"

definition delivered :: "string + string" where
  "delivered = Inr ''ok''"

definition down :: "string + string" where
  "down = Inl ''provider down''"


definition after :: "(int \<times> event) list \<Rightarrow> EmailService \<Rightarrow> Runtime" where
  "after evs s = (case run evs (start s) of Some rt \<Rightarrow> rt | None \<Rightarrow> start s)"

definition contactedIds :: "Runtime \<Rightarrow> string list" where
  "contactedIds rt = map (\<lambda>c. emailId (snd c)) (contacts rt)"

definition queuedIds :: "Runtime \<Rightarrow> string list" where
  "queuedIds rt = map (\<lambda>e. emailId (fst e)) (emailQueue (service rt))"

definition circuitOf :: "provider \<Rightarrow> Runtime \<Rightarrow> CircuitState option" where
  "circuitOf p rt = circuitBreakers (service rt) p"

text \<open>
  One request per second is admitted. \<open>x\<close> is sent at once; \<open>y\<close> is denied admission,
  queued, drained by the timer at 1011 ms and sent; then \<open>y\<close> is submitted again.
\<close>

definition queuedThenSent :: "(int \<times> event) list" where
  "queuedThenSent =
     [(0, Submit mailX), (1, Submit mailY),
      (100, InvocationSettles 0 delivered), (100, RetryResumes 0),
      (1011, TimerFires 0),
      (1100, InvocationSettles 0 delivered), (1100, RetryResumes 0), (1100, DrainResumes 0),
      (1110, TimerFires 0)]"

definition queuedThenSentAgain :: "(int \<times> event) list" where
  "queuedThenSentAgain = queuedThenSent @ [(3000, Submit mailY)]"

definition queuedWhileResent :: "(int \<times> event) list" where
  "queuedWhileResent =
     [(0, Submit mailX), (1, Submit mailY),
      (100, InvocationSettles 0 delivered), (100, RetryResumes 0), (1005, Submit mailY)]"

definition breakerOptions :: Options where
  "breakerOptions = \<lparr> opt_maxRetries = Some 1, opt_initialRetryDelay = Some 100,
     opt_idempotencyWindowMs = None, opt_rateLimitWindowMs = None,
     opt_maxRequestsPerWindow = None, opt_circuitBreakerThreshold = Some 2,
     opt_circuitBreakerTimeoutMs = Some 100, opt_circuitBreakerHalfOpenAttempts = Some 1 \<rparr>"

definition breakerService :: EmailService where
  "breakerService = projr (constructor [providerA] breakerOptions)"

definition mail :: "string \<Rightarrow> EmailData" where
  "mail emailId' = \<lparr> emailId = emailId', to = ''cb@example.com'', subject = ''CB'', body = ''test'' \<rparr>"

text \<open>
  The circuit opens after two failed sends (threshold 2, timeout 100 ms, one retry after
  200 ms); \<open>a3\<close> arrives while it is open; \<open>a4\<close> and \<open>a5\<close> arrive, one right after
  the other, when the timeout has passed.
\<close>

definition circuitOpened :: "(int \<times> event) list" where
  "circuitOpened =
     [(0, Submit (mail ''a1'')), (50, InvocationSettles 0 down), (250, SleepEnds 0),
      (250, InvocationSettles 0 down), (250, RetryResumes 0),
      (300, Submit (mail ''a2'')), (350, InvocationSettles 0 down), (550, SleepEnds 0),
      (550, InvocationSettles 0 down), (550, RetryResumes 0)]"

definition blockedSend :: "(int \<times> event) list" where
  "blockedSend = circuitOpened @ [(600, Submit (mail ''a3''))]"

definition twoProbes :: "(int \<times> event) list" where
  "twoProbes = blockedSend @ [(700, Submit (mail ''a4'')), (701, Submit (mail ''a5''))]"



text \<open>
  \<open>y\<close> is queued, then taken from the queue by the timer at 1011 ms; its send succeeds,
  or fails on both attempts.
\<close>

definition queuedOnly :: "(int \<times> event) list" where
  "queuedOnly =
     [(0, Submit mailX), (1, Submit mailY), (100, InvocationSettles 0 delivered), (100, RetryResumes 0)]"









section \<open>Properties of the backoff executor\<close>

lemma invocationCount_simps [simp]:
  "invocationCount [] = 0"
  "invocationCount (Invoke # es) = Suc (invocationCount es)"
  "invocationCount (Sleep d # es) = invocationCount es"
  by (simp_all add: invocationCount_def)

lemma map_upt_shift: "f 0 # map (\<lambda>j. f (Suc j)) [0..<n] = map f [0..<Suc n]"
  by (simp add: map_upt_Suc del: upt_Suc)

lemma retryLoop_unfold_numeral:
  "retryLoop fn mr e a d le =
     (if int a \<le> mr then
        (case fn a of
           Inr result \<Rightarrow> (Inr result, [Invoke])
         | Inl error \<Rightarrow>
             (if int (a + 1) \<le> mr then
                (fst (retryLoop fn mr e (a + 1) (d * 2) (Some error)),
                 Invoke # Sleep (d * 2) # snd (retryLoop fn mr e (a + 1) (d * 2) (Some error)))
              else
                (fst (retryLoop fn mr e (a + 1) d (Some error)),
                 Invoke # snd (retryLoop fn mr e (a + 1) d (Some error)))))
      else
        (Inl (exhaustedMessage mr e (case le of Some m \<Rightarrow> m | None \<Rightarrow> ''Unknown error'')), []))"
  by (subst retryLoop.simps) (auto simp: Let_def exhaustedMessage_def split: sum.splits)

text \<open>
  Whatever the operation does, the \<open>j\<close>-th sleep of a run (counting from 0) lasts
  \<open>delay * 2 ^ (j + 1)\<close>: the delay is doubled before it is first used.
\<close>

lemma retryLoop_delays:
  "delays (snd (retryLoop fn mr e a d le)) =
     map (\<lambda>j. d * 2 ^ (j + 1)) [0..<length (delays (snd (retryLoop fn mr e a d le)))]"
proof (induction fn mr e a d le rule: retryLoop.induct)
  case (1 fn mr e a d le)
  show ?case
  proof (cases "int a \<le> mr")
    case False
    then show ?thesis by (simp add: retryLoop.simps [of fn mr e a d le])
  next
    case True
    show ?thesis
    proof (cases "fn a")
      case (Inr r)
      with True show ?thesis by (simp add: retryLoop.simps [of fn mr e a d le])
    next
      case (Inl err)
      show ?thesis
      proof (cases "int (a + 1) \<le> mr")
        case more: True
        let ?rest = "retryLoop fn mr e (a + 1) (d * 2) (Some err)"
        have ih: "delays (snd ?rest) = map (\<lambda>j. d * 2 * 2 ^ (j + 1)) [0..<length (delays (snd ?rest))]"
          using "1.IH"(1) [OF True Inl more] .
        have unf: "retryLoop fn mr e a d le = (fst ?rest, Invoke # Sleep (d * 2) # snd ?rest)"
          using True Inl more by (simp add: retryLoop.simps [of fn mr e a d le] Let_def)
        have "delays (snd (retryLoop fn mr e a d le)) = d * 2 # delays (snd ?rest)"
          by (simp add: unf)
        also have "\<dots> = d * 2 ^ (0 + 1) # map (\<lambda>j. d * 2 ^ (Suc j + 1)) [0..<length (delays (snd ?rest))]"
          by (subst ih) (simp add: mult.assoc)
        also have "\<dots> = map (\<lambda>j. d * 2 ^ (j + 1)) [0..<Suc (length (delays (snd ?rest)))]"
          by (rule map_upt_shift [of "\<lambda>j. d * 2 ^ (j + 1)"])
        finally show ?thesis by (simp add: unf del: upt_Suc)
      next
        case last: False
        let ?rest = "retryLoop fn mr e (a + 1) d (Some err)"
        have unf: "retryLoop fn mr e a d le = (fst ?rest, Invoke # snd ?rest)"
          using True Inl last by (simp add: retryLoop.simps [of fn mr e a d le] Let_def)
        show ?thesis using "1.IH"(2) [OF True Inl last] by (simp add: unf)
      qed
    qed
  qed
qed

lemma retryLoop_exhausted:
  assumes "\<forall>k. a \<le> k \<and> int k \<le> mr \<longrightarrow> fn k = Inl (err k)"
  shows "fst (retryLoop fn mr e a d le) =
           Inl (exhaustedMessage mr e
                  (if int a \<le> mr then err (nat mr) else (case le of Some m \<Rightarrow> m | None \<Rightarrow> ''Unknown error'')))
         \<and> invocationCount (snd (retryLoop fn mr e a d le)) = nat (mr + 1 - int a)"
  using assms
proof (induction fn mr e a d le rule: retryLoop.induct)
  case (1 fn mr e a d le)
  show ?case
  proof (cases "int a \<le> mr")
    case False
    then show ?thesis by (simp add: retryLoop.simps [of fn mr e a d le] exhaustedMessage_def)
  next
    case True
    then have fa: "fn a = Inl (err a)" using "1.prems" by simp
    have later: "\<forall>k. a + 1 \<le> k \<and> int k \<le> mr \<longrightarrow> fn k = Inl (err k)" using "1.prems" by simp
    show ?thesis
    proof (cases "int (a + 1) \<le> mr")
      case more: True
      from "1.IH"(1) [OF True fa more later] True more show ?thesis
        by (simp add: retryLoop.simps [of fn mr e a d le] fa Let_def nat_diff_distrib)
    next
      case last: False
      then have "nat mr = a" using True by simp
      with "1.IH"(2) [OF True fa last later] True last show ?thesis
        by (simp add: retryLoop.simps [of fn mr e a d le] fa Let_def)
    qed
  qed
qed

lemma retryLoop_success:
  assumes "a \<le> k" "int k \<le> mr" "fn k = Inr r" "\<forall>j. a \<le> j \<and> j < k \<longrightarrow> isl (fn j)"
  shows "fst (retryLoop fn mr e a d le) = Inr r
         \<and> invocationCount (snd (retryLoop fn mr e a d le)) = k + 1 - a"
  using assms
proof (induction fn mr e a d le rule: retryLoop.induct)
  case (1 fn mr e a d le)
  have True: "int a \<le> mr" using "1.prems" by simp
  show ?case
  proof (cases "a = k")
    case True
    then show ?thesis using "1.prems" by (simp add: retryLoop.simps [of fn mr e k d le])
  next
    case False
    then have lt: "a < k" using "1.prems" by simp
    then obtain err where fa: "fn a = Inl err" using "1.prems"(4) by (cases "fn a") auto
    have more: "int (a + 1) \<le> mr" using lt "1.prems"(2) by simp
    have "a + 1 \<le> k" using lt by simp
    moreover have "\<forall>j. a + 1 \<le> j \<and> j < k \<longrightarrow> isl (fn j)" using "1.prems"(4) by simp
    ultimately have "fst (retryLoop fn mr e (a + 1) (d * 2) (Some err)) = Inr r
         \<and> invocationCount (snd (retryLoop fn mr e (a + 1) (d * 2) (Some err))) = k + 1 - (a + 1)"
      using "1.IH"(1) [OF True fa more] "1.prems"(2,3) by blast
    then show ?thesis using True more lt
      by (simp add: retryLoop.simps [of fn mr e a d le] fa Let_def)
  qed
qed

text \<open>The executor run event by event is the executor: same outcome, same effects.\<close>

lemma retryRun_retryLoop:
  "int attempt \<le> maxRetries' \<Longrightarrow>
     retryRun fn maxRetries' emailId' (Invoking attempt currentDelay)
       = retryLoop fn maxRetries' emailId' attempt currentDelay lastError"
proof (induction fn maxRetries' emailId' attempt currentDelay lastError rule: retryLoop.induct)
  case (1 fn mr e a d le)
  show ?case
  proof (cases "fn a")
    case (Inr r)
    then show ?thesis using "1.prems"
      by (simp add: retryLoop.simps [of fn mr e a d le] invocationSettled_def)
  next
    case (Inl err)
    show ?thesis
    proof (cases "int (a + 1) \<le> mr")
      case True
      from "1.IH"(1) [OF "1.prems" Inl True True]
      have "retryRun fn mr e (Invoking (a + 1) (d * 2)) = retryLoop fn mr e (a + 1) (d * 2) (Some err)" .
      then show ?thesis using "1.prems" Inl True
        by (simp add: retryLoop.simps [of fn mr e a d le] invocationSettled_def sleepEnded_def Let_def)
    next
      case False
      then have "retryLoop fn mr e (a + 1) d (Some err) = (Inl (exhaustedMessage mr e err), [])"
        by (subst retryLoop.simps) (simp add: exhaustedMessage_def)
      then show ?thesis using "1.prems" Inl False
        by (simp add: retryLoop.simps [of fn mr e a d le] invocationSettled_def Let_def)
    qed
  qed
qed

lemma retryRun_retryWithBackoff:
  "retryRun fn maxRetries' emailId' (retryStart maxRetries' delay emailId')
     = retryWithBackoff fn maxRetries' delay emailId'"
proof (cases "0 \<le> maxRetries'")
  case True
  then show ?thesis
    using retryRun_retryLoop [of 0 maxRetries' fn emailId' delay None]
    by (simp add: retryStart_def retryWithBackoff_def)
next
  case False
  then show ?thesis
    by (simp add: retryStart_def retryWithBackoff_def exhaustedMessage_def
          retryLoop.simps [of fn maxRetries' emailId' 0 delay None])
qed

text \<open>
  Claim C5: in the backoff executor the delay between attempt 1 and attempt 2 equals
  \<open>initialRetryDelay\<close>, the next one twice that, and the \<open>k\<close>-th equals
  \<open>2 ^ (k - 1) * initialRetryDelay\<close>. The code runs \<^verbatim>\<open>currentDelay *= 2\<close> before the
  first \<^verbatim>\<open>sleep(currentDelay)\<close>: with two retries and an initial delay of 100 ms an
  operation that keeps failing is retried after 200 ms and then after 400 ms, not after
  100 ms and 200 ms.
\<close>

theorem C5_first_delay_is_doubled:
  "delays (snd (retryWithBackoff fn maxRetries' delay emailId'))
     = map (\<lambda>j. delay * 2 ^ (j + 1))
         [0..<length (delays (snd (retryWithBackoff fn maxRetries' delay emailId')))]
   \<and> delays (snd (retryWithBackoff alwaysFails 2 100 ''e1'')) = [200, 400]"
proof
  show "delays (snd (retryWithBackoff fn maxRetries' delay emailId'))
     = map (\<lambda>j. delay * 2 ^ (j + 1))
         [0..<length (delays (snd (retryWithBackoff fn maxRetries' delay emailId')))]"
    unfolding retryWithBackoff_def by (rule retryLoop_delays)
  show "delays (snd (retryWithBackoff alwaysFails 2 100 ''e1'')) = [200, 400]"
    by (simp add: retryWithBackoff_def alwaysFails_def retryLoop_unfold_numeral)
qed

text \<open>
  Claim C6: an operation that fails on every invocation is invoked exactly
  \<open>maxRetries + 1\<close> times, and the executor then raises the exhaustion error whose
  message ends with the message of the last underlying error; an operation whose first
  success is its invocation number \<open>k + 1 \<le> maxRetries + 1\<close> is invoked exactly
  \<open>k + 1\<close> times and its result is returned. (\<open>maxRetries\<close> is a count: \<open>0 \<le> maxRetries\<close>.)
\<close>

theorem C6_attempts_and_exhaustion:
  "(0 \<le> mr \<and> (\<forall>k. int k \<le> mr \<longrightarrow> fn k = Inl (err k)) \<longrightarrow>
      fst (retryWithBackoff fn mr d e) = Inl (exhaustedMessage mr e (err (nat mr)))
      \<and> int (invocationCount (snd (retryWithBackoff fn mr d e))) = mr + 1)
   \<and> (int k \<le> mr \<and> fn k = Inr r \<and> (\<forall>j<k. isl (fn j)) \<longrightarrow>
      fst (retryWithBackoff fn mr d e) = Inr r
      \<and> invocationCount (snd (retryWithBackoff fn mr d e)) = k + 1)"
proof (intro conjI impI)
  assume h: "0 \<le> mr \<and> (\<forall>k. int k \<le> mr \<longrightarrow> fn k = Inl (err k))"
  then have all: "\<forall>k. 0 \<le> k \<and> int k \<le> mr \<longrightarrow> fn k = Inl (err k)" by simp
  from retryLoop_exhausted [OF all, of e d None] h
  show "fst (retryWithBackoff fn mr d e) = Inl (exhaustedMessage mr e (err (nat mr)))"
    and "int (invocationCount (snd (retryWithBackoff fn mr d e))) = mr + 1"
    by (simp_all add: retryWithBackoff_def)
next
  assume h: "int k \<le> mr \<and> fn k = Inr r \<and> (\<forall>j<k. isl (fn j))"
  then have "fst (retryLoop fn mr e 0 d None) = Inr r
         \<and> invocationCount (snd (retryLoop fn mr e 0 d None)) = k + 1 - 0"
    by (intro retryLoop_success) auto
  then show "fst (retryWithBackoff fn mr d e) = Inr r"
    and "invocationCount (snd (retryWithBackoff fn mr d e)) = k + 1"
    by (simp_all add: retryWithBackoff_def)
qed

theorem C6_attempts_and_exhaustion_witness:
  "fst (retryWithBackoff alwaysFails 2 100 ''e1'') = Inl (exhaustedMessage 2 ''e1'' ''provider down'')
   \<and> invocationCount (snd (retryWithBackoff alwaysFails 2 100 ''e1'')) = 3
   \<and> fst (retryWithBackoff secondSucceeds 2 100 ''e1'') = Inr ''delivered''
   \<and> invocationCount (snd (retryWithBackoff secondSucceeds 2 100 ''e1'')) = 2"
  using C6_attempts_and_exhaustion [of 2 alwaysFails "\<lambda>k. ''provider down''" 100 "''e1''" 1 "''delivered''"]
        C6_attempts_and_exhaustion [of 2 secondSucceeds "\<lambda>k. ''provider down''" 100 "''e1''" 1 "''delivered''"]
  by (simp add: alwaysFails_def secondSucceeds_def)

section \<open>Properties of the rate admission controller\<close>

lemma isRateLimited_eq:
  "isRateLimited now s =
     (let pruned = filter (\<lambda>t. now - t < rateLimitWindowMs s) (requestTimestamps s) in
        if maxRequestsPerWindow s \<le> int (length pruned) then (True, s\<lparr>requestTimestamps := pruned\<rparr>)
        else (False, s\<lparr>requestTimestamps := pruned @ [now]\<rparr>))"
  by (simp add: isRateLimited_def Let_def)

lemma isRateLimited_bound:
  assumes "int (length (requestTimestamps s)) \<le> maxRequestsPerWindow s"
  shows "int (length (requestTimestamps (snd (isRateLimited now s)))) \<le> maxRequestsPerWindow s"
proof -
  let ?pruned = "filter (\<lambda>t. now - t < rateLimitWindowMs s) (requestTimestamps s)"
  have le: "int (length ?pruned) \<le> int (length (requestTimestamps s))" by simp
  show ?thesis
  proof (cases "maxRequestsPerWindow s \<le> int (length ?pruned)")
    case True
    then have "requestTimestamps (snd (isRateLimited now s)) = ?pruned"
      by (simp add: isRateLimited_eq)
    then have "int (length (requestTimestamps (snd (isRateLimited now s)))) = int (length ?pruned)"
      by (rule arg_cong)
    then show ?thesis using le assms by linarith
  next
    case False
    then have "requestTimestamps (snd (isRateLimited now s)) = ?pruned @ [now]"
      by (simp add: isRateLimited_eq)
    then show ?thesis using False by simp
  qed
qed

lemma isRateLimited_config [simp]:
  "maxRequestsPerWindow (snd (isRateLimited now s)) = maxRequestsPerWindow s"
  "rateLimitWindowMs (snd (isRateLimited now s)) = rateLimitWindowMs s"
  by (simp_all add: isRateLimited_eq Let_def)

lemma admissionChecks_bound:
  "int (length (requestTimestamps s)) \<le> maxRequestsPerWindow s \<Longrightarrow>
   int (length (requestTimestamps (admissionChecks ts s))) \<le> maxRequestsPerWindow (admissionChecks ts s)"
proof (induction ts arbitrary: s)
  case Nil
  then show ?case by simp
next
  case (Cons now ts)
  from isRateLimited_bound [OF Cons.prems, of now]
  have "int (length (requestTimestamps (snd (isRateLimited now s))))
     \<le> maxRequestsPerWindow (snd (isRateLimited now s))"
    by simp
  from Cons.IH [OF this] show ?case by simp
qed

text \<open>
  Claim C7: an admission check first drops from the window every timestamp that is
  \<open>rateLimitWindowMs\<close> old or older, then denies, recording nothing, exactly when the
  pruned window holds \<open>maxRequestsPerWindow\<close> entries or more, and otherwise appends the
  current time and admits. A window within the bound stays within it, so from the empty
  window of a new service (with a bound that is not negative) it holds at most
  \<open>maxRequestsPerWindow\<close> timestamps after every check.
\<close>

theorem C7_admission_check:
  "(let pruned = filter (\<lambda>t. now - t < rateLimitWindowMs s) (requestTimestamps s);
        limited = fst (isRateLimited now s);
        s' = snd (isRateLimited now s)
    in (\<forall>t \<in> set (requestTimestamps s). now - t \<ge> rateLimitWindowMs s \<longrightarrow> t \<notin> set pruned)
       \<and> (limited \<longleftrightarrow> maxRequestsPerWindow s \<le> int (length pruned))
       \<and> s' = s\<lparr>requestTimestamps := (if limited then pruned else pruned @ [now])\<rparr>
       \<and> (int (length (requestTimestamps s)) \<le> maxRequestsPerWindow s \<longrightarrow>
            int (length (requestTimestamps s')) \<le> maxRequestsPerWindow s))
   \<and> (requestTimestamps s = [] \<and> 0 \<le> maxRequestsPerWindow s \<longrightarrow>
        int (length (requestTimestamps (admissionChecks nows s))) \<le> maxRequestsPerWindow s)"
proof -
  let ?pruned = "filter (\<lambda>t. now - t < rateLimitWindowMs s) (requestTimestamps s)"
  let ?limited = "fst (isRateLimited now s)"
  let ?s' = "snd (isRateLimited now s)"
  have a: "\<forall>t \<in> set (requestTimestamps s). now - t \<ge> rateLimitWindowMs s \<longrightarrow> t \<notin> set ?pruned"
    by simp
  have b: "?limited \<longleftrightarrow> maxRequestsPerWindow s \<le> int (length ?pruned)"
    by (simp add: isRateLimited_eq Let_def)
  have c: "?s' = s\<lparr>requestTimestamps := (if ?limited then ?pruned else ?pruned @ [now])\<rparr>"
    by (simp add: isRateLimited_eq Let_def)
  have d: "int (length (requestTimestamps s)) \<le> maxRequestsPerWindow s \<longrightarrow>
             int (length (requestTimestamps ?s')) \<le> maxRequestsPerWindow s"
    using isRateLimited_bound [of s now] by simp
  have config: "maxRequestsPerWindow (admissionChecks ts s0) = maxRequestsPerWindow s0" for ts s0
    by (induction ts arbitrary: s0) simp_all
  have e: "requestTimestamps s = [] \<and> 0 \<le> maxRequestsPerWindow s \<longrightarrow>
        int (length (requestTimestamps (admissionChecks nows s))) \<le> maxRequestsPerWindow s"
    using admissionChecks_bound [of s nows] config [of nows s] by simp
  from a b c d e show ?thesis unfolding Let_def by blast
qed

theorem C7_admission_check_witness:
  "fst (isRateLimited 1005 (smallService\<lparr>requestTimestamps := [5]\<rparr>)) = False
   \<and> requestTimestamps (snd (isRateLimited 1005 (smallService\<lparr>requestTimestamps := [5]\<rparr>))) = [1005]
   \<and> fst (isRateLimited 1004 (smallService\<lparr>requestTimestamps := [5]\<rparr>)) = True
   \<and> requestTimestamps (snd (isRateLimited 1004 (smallService\<lparr>requestTimestamps := [5]\<rparr>))) = [5]
   \<and> int (length (requestTimestamps (admissionChecks [0, 1, 2000] smallService))) \<le> 1"
  using C7_admission_check [of 1005 "smallService\<lparr>requestTimestamps := [5]\<rparr>" "[]"]
        C7_admission_check [of 1004 "smallService\<lparr>requestTimestamps := [5]\<rparr>" "[]"]
        C7_admission_check [of 0 smallService "[0, 1, 2000]"]
  by (simp add: smallService_def smallOptions_def constructor_def orDefault_def isRateLimited_def Let_def)

section \<open>Properties of the constructor\<close>

lemma retry_always_failing_count:
  assumes "0 \<le> mr" "\<forall>k. isl (fn k)"
  shows "int (invocationCount (snd (retryWithBackoff fn mr d e))) = mr + 1"
proof -
  have "\<forall>k. 0 \<le> k \<and> int k \<le> mr \<longrightarrow> fn k = Inl (projl (fn k))"
    using assms(2) by simp
  from retryLoop_exhausted [OF this, of e d None] assms(1) show ?thesis
    by (simp add: retryWithBackoff_def)
qed

text \<open>
  Claim C9: each numeric option passed as 0 is replaced by its documented default
  (\<^verbatim>\<open>options.x || default\<close> treats 0 as absent); in particular a service built with
  \<^verbatim>\<open>maxRetries: 0\<close> has \<open>maxRetries = 3\<close> and so invokes a provider that keeps failing
  4 times, not once.
\<close>

theorem C9_zero_option_yields_default:
  "ps \<noteq> [] \<longrightarrow>
     (\<exists>s. constructor ps options = Inr s
        \<and> (opt_maxRetries options = Some 0 \<longrightarrow> maxRetries s = 3)
        \<and> (opt_initialRetryDelay options = Some 0 \<longrightarrow> initialRetryDelay s = 100)
        \<and> (opt_idempotencyWindowMs options = Some 0 \<longrightarrow> idempotencyWindowMs s = 60000)
        \<and> (opt_rateLimitWindowMs options = Some 0 \<longrightarrow> rateLimitWindowMs s = 1000)
        \<and> (opt_maxRequestsPerWindow options = Some 0 \<longrightarrow> maxRequestsPerWindow s = 10)
        \<and> (opt_circuitBreakerThreshold options = Some 0 \<longrightarrow> circuitBreakerThreshold s = 3)
        \<and> (opt_circuitBreakerTimeoutMs options = Some 0 \<longrightarrow> circuitBreakerTimeoutMs s = 5000)
        \<and> (opt_circuitBreakerHalfOpenAttempts options = Some 0 \<longrightarrow> circuitBreakerHalfOpenAttempts s = 1)
        \<and> (opt_maxRetries options = Some 0 \<and> (\<forall>k. isl (fn k)) \<longrightarrow>
              invocationCount (snd (retryWithBackoff fn (maxRetries s) (initialRetryDelay s) e)) = 4))"
proof
  assume ne: "ps \<noteq> []"
  then obtain s where s: "constructor ps options = Inr s" by (simp add: constructor_def)
  have attempts: "invocationCount (snd (retryWithBackoff fn (maxRetries s) (initialRetryDelay s) e)) = 4"
    if "opt_maxRetries options = Some 0" "\<forall>k. isl (fn k)"
  proof -
    have "maxRetries s = 3" using s ne that(1) by (auto simp: constructor_def orDefault_def)
    with retry_always_failing_count [of "maxRetries s" fn "initialRetryDelay s" e] that(2)
    show ?thesis by simp
  qed
  show "\<exists>s. constructor ps options = Inr s
        \<and> (opt_maxRetries options = Some 0 \<longrightarrow> maxRetries s = 3)
        \<and> (opt_initialRetryDelay options = Some 0 \<longrightarrow> initialRetryDelay s = 100)
        \<and> (opt_idempotencyWindowMs options = Some 0 \<longrightarrow> idempotencyWindowMs s = 60000)
        \<and> (opt_rateLimitWindowMs options = Some 0 \<longrightarrow> rateLimitWindowMs s = 1000)
        \<and> (opt_maxRequestsPerWindow options = Some 0 \<longrightarrow> maxRequestsPerWindow s = 10)
        \<and> (opt_circuitBreakerThreshold options = Some 0 \<longrightarrow> circuitBreakerThreshold s = 3)
        \<and> (opt_circuitBreakerTimeoutMs options = Some 0 \<longrightarrow> circuitBreakerTimeoutMs s = 5000)
        \<and> (opt_circuitBreakerHalfOpenAttempts options = Some 0 \<longrightarrow> circuitBreakerHalfOpenAttempts s = 1)
        \<and> (opt_maxRetries options = Some 0 \<and> (\<forall>k. isl (fn k)) \<longrightarrow>
              invocationCount (snd (retryWithBackoff fn (maxRetries s) (initialRetryDelay s) e)) = 4)"
  proof (intro exI [of _ s] conjI impI)
    show "constructor ps options = Inr s" by (rule s)
  qed (use s ne attempts in \<open>auto simp: constructor_def orDefault_def\<close>)
qed

theorem C9_zero_option_yields_default_witness:
  "\<exists>s. constructor [Provider 0 ''p1''] zeroOptions = Inr s
        \<and> maxRetries s = 3 \<and> initialRetryDelay s = 100 \<and> idempotencyWindowMs s = 60000
        \<and> rateLimitWindowMs s = 1000 \<and> maxRequestsPerWindow s = 10
        \<and> circuitBreakerThreshold s = 3 \<and> circuitBreakerTimeoutMs s = 5000
        \<and> circuitBreakerHalfOpenAttempts s = 1
        \<and> invocationCount (snd (retryWithBackoff alwaysFails (maxRetries s) (initialRetryDelay s) ''e1'')) = 4"
  using C9_zero_option_yields_default [of "[Provider 0 ''p1'']" zeroOptions alwaysFails "''e1''"]
  by (simp add: zeroOptions_def alwaysFails_def)

section \<open>Properties of the circuit breaker registry\<close>











text \<open>Supporting facts about the half-open probe: what the registry does around it.\<close>

lemma half_open_transition:
  assumes "circuitBreakers s p = Some st" "isOpen st"
    and "now - lastFailureTime st > circuitBreakerTimeoutMs s"
  shows "isCircuitOpen now p s =
           (False, s\<lparr>circuitBreakers := (circuitBreakers s)(p \<mapsto> st\<lparr>isOpen := False, halfOpenAttempts := 0\<rparr>)\<rparr>)"
  using assms by (simp add: isCircuitOpen_def)

lemma probe_success_closes:
  assumes "circuitBreakers s p = Some st"
  shows "circuitBreakers (recordSuccess p s) p
           = Some (st\<lparr>isOpen := False, failureCount := 0, halfOpenAttempts := 0\<rparr>)"
  using assms by (simp add: recordSuccess_def)

lemma probe_failure_reopens:
  assumes "circuitBreakers s p = Some st" "\<not> isOpen st"
    and "circuitBreakerThreshold s \<le> failureCount st + 1"
  shows "circuitBreakers (recordFailure now p s) p
           = Some (st\<lparr>failureCount := failureCount st + 1, lastFailureTime := now, isOpen := True\<rparr>)"
    and "now' - now \<le> circuitBreakerTimeoutMs s \<Longrightarrow> blocking now' p (recordFailure now p s)"
  using assms by (simp_all add: recordFailure_def Let_def blocking_def)

section \<open>What the fallback loop changes\<close>

lemma isCircuitOpen_only_circuits:
  "\<exists>cb. snd (isCircuitOpen now p s) = s\<lparr>circuitBreakers := cb\<rparr>"
proof (cases "circuitBreakers s p")
  case None
  then have "snd (isCircuitOpen now p s) = s\<lparr>circuitBreakers := circuitBreakers s\<rparr>"
    by (simp add: isCircuitOpen_def)
  then show ?thesis by (rule exI [where x = "circuitBreakers s"])
next
  case (Some st)
  show ?thesis
  proof (cases "isOpen st \<and> now - lastFailureTime st > circuitBreakerTimeoutMs s")
    case True
    with Some have "snd (isCircuitOpen now p s) =
       s\<lparr>circuitBreakers := (circuitBreakers s)(p \<mapsto> st\<lparr>isOpen := False, halfOpenAttempts := 0\<rparr>)\<rparr>"
      by (simp add: isCircuitOpen_def)
    then show ?thesis
      by (rule exI [where x = "(circuitBreakers s)(p \<mapsto> st\<lparr>isOpen := False, halfOpenAttempts := 0\<rparr>)"])
  next
    case False
    with Some have "snd (isCircuitOpen now p s) = s\<lparr>circuitBreakers := circuitBreakers s\<rparr>"
      by (auto simp: isCircuitOpen_def)
    then show ?thesis by (rule exI [where x = "circuitBreakers s"])
  qed
qed

lemma providerLoop_effect:
  "\<exists>cb fs cs.
     snd (providerLoop now d orig i le rt)
       = rt\<lparr>service := (service rt)\<lparr>circuitBreakers := cb\<rparr>,
            frames := frames rt @ fs, contacts := contacts rt @ cs\<rparr>
     \<and> (case fst (providerLoop now d orig i le rt) of
           Awaiting \<Rightarrow>
             (\<exists>j idx p. fs = [AwaitRetry d j idx p orig
                (retryStart (maxRetries (service rt)) (initialRetryDelay (service rt)) (emailId d))])
         | Exhausted x \<Rightarrow> fs = [] \<and> cs = [])"
proof (induction now d orig i le rt rule: providerLoop.induct)
  case (1 now d orig i le rt)
  let ?st = "retryStart (maxRetries (service rt)) (initialRetryDelay (service rt)) (emailId d)"
  show ?case
  proof (cases "i < length (providers (service rt))")
    case False
    then have unf: "providerLoop now d orig i le rt = (Exhausted le, rt)"
      by (subst providerLoop.simps) simp
    have "rt = rt\<lparr>service := (service rt)\<lparr>circuitBreakers := circuitBreakers (service rt)\<rparr>,
            frames := frames rt @ [], contacts := contacts rt @ []\<rparr>"
      by simp
    then show ?thesis unfolding unf by (intro exI [of _ "[]"] exI [of _ "circuitBreakers (service rt)"]) simp
  next
    case True
    let ?idx = "(currentProviderIndex (service rt) + i) mod length (providers (service rt))"
    let ?p = "providers (service rt) ! ?idx"
    obtain b s1 where co: "isCircuitOpen now ?p (service rt) = (b, s1)" by force
    obtain cb1 where s1: "s1 = (service rt)\<lparr>circuitBreakers := cb1\<rparr>"
      using isCircuitOpen_only_circuits [of now ?p "service rt"] co by auto
    show ?thesis
    proof (cases b)
      case False
      have unf: "providerLoop now d orig i le rt =
         (Awaiting, rt\<lparr>service := s1,
                    frames := frames rt @ [AwaitRetry d i ?idx ?p orig
                       (retryStart (maxRetries s1) (initialRetryDelay s1) (emailId d))],
                    contacts := contacts rt @ (if 0 \<le> maxRetries s1 then [(?p, d)] else [])\<rparr>)"
        using True co False by (subst providerLoop.simps) (simp add: Let_def)
      show ?thesis unfolding unf s1
        by (intro exI [of _ cb1] exI [of _ "[AwaitRetry d i ?idx ?p orig ?st]"]
              exI [of _ "if 0 \<le> maxRetries (service rt) then [(?p, d)] else []"]) simp
    next
      case b: True
      let ?rt1 = "rt\<lparr>service := s1\<rparr>"
      let ?le1 = "Some (''Circuit open for '' @ providerName ?p)"
      have unf: "providerLoop now d orig i le rt = providerLoop now d orig (i + 1) ?le1 ?rt1"
        using True co b by (subst providerLoop.simps) (simp add: Let_def)
      have st1: "retryStart (maxRetries (service ?rt1)) (initialRetryDelay (service ?rt1)) (emailId d) = ?st"
        unfolding s1 by simp
      from "1.IH" [OF True refl refl co [symmetric]] b
      obtain cb fs cs where ih:
        "snd (providerLoop now d orig (i + 1) ?le1 ?rt1)
           = ?rt1\<lparr>service := (service ?rt1)\<lparr>circuitBreakers := cb\<rparr>,
                frames := frames ?rt1 @ fs, contacts := contacts ?rt1 @ cs\<rparr>"
        "case fst (providerLoop now d orig (i + 1) ?le1 ?rt1) of
           Awaiting \<Rightarrow> (\<exists>j idx p. fs = [AwaitRetry d j idx p orig ?st])
         | Exhausted x \<Rightarrow> fs = [] \<and> cs = []"
        unfolding st1 by auto
      have "snd (providerLoop now d orig i le rt)
           = rt\<lparr>service := (service rt)\<lparr>circuitBreakers := cb\<rparr>,
                frames := frames rt @ fs, contacts := contacts rt @ cs\<rparr>"
        using ih(1) unfolding unf s1 by simp
      with ih(2) show ?thesis unfolding unf by blast
    qed
  qed
qed

lemma providerLoop_cases:
  obtains (Awaiting) cb cs j idx p where
      "providerLoop now d orig i le rt =
         (Awaiting, rt\<lparr>service := (service rt)\<lparr>circuitBreakers := cb\<rparr>,
                       frames := frames rt @ [AwaitRetry d j idx p orig
                          (retryStart (maxRetries (service rt)) (initialRetryDelay (service rt)) (emailId d))],
                       contacts := contacts rt @ cs\<rparr>)"
  | (Exhausted) cb le1 where
      "providerLoop now d orig i le rt =
         (Exhausted le1, rt\<lparr>service := (service rt)\<lparr>circuitBreakers := cb\<rparr>\<rparr>)"
proof -
  let ?st = "retryStart (maxRetries (service rt)) (initialRetryDelay (service rt)) (emailId d)"
  obtain cb fs cs where eff:
    "snd (providerLoop now d orig i le rt)
       = rt\<lparr>service := (service rt)\<lparr>circuitBreakers := cb\<rparr>,
            frames := frames rt @ fs, contacts := contacts rt @ cs\<rparr>"
    "case fst (providerLoop now d orig i le rt) of
           Awaiting \<Rightarrow> (\<exists>j idx p. fs = [AwaitRetry d j idx p orig ?st])
         | Exhausted x \<Rightarrow> fs = [] \<and> cs = []"
    using providerLoop_effect [of now d orig i le rt] by blast
  show thesis
  proof (cases "fst (providerLoop now d orig i le rt)")
    case Awaiting
    with eff(2) obtain j idx p where "fs = [AwaitRetry d j idx p orig ?st]" by auto
    with eff(1) Awaiting have "providerLoop now d orig i le rt =
         (Awaiting, rt\<lparr>service := (service rt)\<lparr>circuitBreakers := cb\<rparr>,
                       frames := frames rt @ [AwaitRetry d j idx p orig ?st],
                       contacts := contacts rt @ cs\<rparr>)"
      by (simp add: prod_eq_iff)
    then show thesis by (rule that(1))
  next
    case (Exhausted le1)
    with eff(2) have "fs = []" "cs = []" by auto
    with eff(1) Exhausted have "providerLoop now d orig i le rt =
         (Exhausted le1, rt\<lparr>service := (service rt)\<lparr>circuitBreakers := cb\<rparr>\<rparr>)"
      by (simp add: prod_eq_iff)
    then show thesis by (rule that(2))
  qed
qed

lemma drain_sync:
  "(case orig of Direct q \<Rightarrow> drainConsistent rt | FromQueue q \<Rightarrow> midDrain rt)
     \<Longrightarrow> drainConsistent (processSendFrom now d orig i le rt)"
  "drainConsistent rt' \<Longrightarrow> drainConsistent (processQueue now' rt')"
  "midDrain rt'' \<Longrightarrow> drainConsistent (drainLoop now'' rt'')"
proof (induction now d orig i le rt and now' rt' and now'' rt''
       rule: processSendFrom_processQueue_drainLoop.induct)
  case (1 now d orig i le rt)
  show ?case
  proof (cases rule: providerLoop_cases [of now d orig i le rt])
    case (Awaiting cb cs j idx p)
    then show ?thesis using "1.prems"
      by (subst processSendFrom.simps)
         (auto simp: drainConsistent_def midDrain_def drainPasses_def split: origin.splits if_splits)
  next
    case (Exhausted cb le1)
    let ?rt2 = "rt\<lparr>service := (service rt)\<lparr>circuitBreakers := cb,
                  emailStatuses := (emailStatuses (service rt))(emailId d \<mapsto> Failed)\<rparr>\<rparr>"
    have unf: "processSendFrom now d orig i le rt =
       deliver orig (Inl (allFailedMessage (emailId d) le1)) (processQueue now ?rt2)"
      using Exhausted by (subst processSendFrom.simps) simp
    show ?thesis
    proof (cases orig)
      case (Direct q)
      with "1.prems" have "drainConsistent ?rt2"
        by (simp add: drainConsistent_def drainPasses_def)
      with "1.IH" [OF Exhausted [symmetric] refl] Exhausted
      have "drainConsistent (processQueue now ?rt2)" by simp
      then show ?thesis unfolding unf using Direct
        by (simp add: deliver_def drainConsistent_def drainPasses_def)
    next
      case (FromQueue q)
      with "1.prems" have m: "midDrain ?rt2"
        by (simp add: midDrain_def drainPasses_def)
      then have "processQueue now ?rt2 = ?rt2"
        by (subst processQueue.simps) (simp add: midDrain_def)
      then show ?thesis unfolding unf using FromQueue m
        by (simp add: deliver_def drainConsistent_def midDrain_def drainPasses_def)
    qed
  qed
next
  case (2 now rt)
  show ?case
  proof (cases "isProcessingQueue (service rt) \<or> emailQueue (service rt) = []")
    case True
    then show ?thesis using "2.prems" by (subst processQueue.simps) simp
  next
    case False
    with "2.prems" have "midDrain (rt\<lparr>service := (service rt)\<lparr>isProcessingQueue := True\<rparr>\<rparr>)"
      by (simp add: midDrain_def drainConsistent_def drainPasses_def)
    from "2.IH" [OF False this] False show ?thesis
      by (subst processQueue.simps) simp
  qed
next
  case (3 now rt)
  show ?case
  proof (cases "emailQueue (service rt)")
    case Nil
    then show ?thesis using "3.prems"
      by (subst drainLoop.simps)
         (simp add: leaveDrain_def midDrain_def drainConsistent_def drainPasses_def Let_def)
  next
    case (Cons entry rest)
    obtain b s1 where rl: "isRateLimited now (service rt) = (b, s1)" by force
    have s1: "isProcessingQueue s1 = isProcessingQueue (service rt)"
      using rl by (auto simp: isRateLimited_eq Let_def split: if_splits)
    show ?thesis
    proof (cases b)
      case True
      then show ?thesis using "3.prems" Cons rl s1
        by (subst drainLoop.simps)
           (simp add: leaveDrain_def midDrain_def drainConsistent_def drainPasses_def Let_def)
    next
      case False
      have "midDrain (rt\<lparr>service := s1\<lparr>emailQueue := rest\<rparr>\<rparr>)"
        using "3.prems" s1 by (simp add: midDrain_def drainPasses_def)
      with "3.IH" [OF Cons rl [symmetric]] False
      have "drainConsistent (processSendFrom now (fst entry) (FromQueue (snd entry)) 0 None
               (rt\<lparr>service := s1\<lparr>emailQueue := rest\<rparr>\<rparr>))"
        by simp
      then show ?thesis using Cons rl False by (subst drainLoop.simps) simp
    qed
  qed
qed

section \<open>Invariants of the event loop\<close>

lemma isRateLimited_only_timestamps:
  "\<exists>ts. snd (isRateLimited now s) = s\<lparr>requestTimestamps := ts\<rparr>"
proof (cases "fst (isRateLimited now s)")
  case True
  then have "snd (isRateLimited now s) =
     s\<lparr>requestTimestamps := filter (\<lambda>t. now - t < rateLimitWindowMs s) (requestTimestamps s)\<rparr>"
    by (simp add: isRateLimited_eq Let_def split: if_splits)
  then show ?thesis
    by (rule exI [where x = "filter (\<lambda>t. now - t < rateLimitWindowMs s) (requestTimestamps s)"])
next
  case False
  then have "snd (isRateLimited now s) =
     s\<lparr>requestTimestamps := filter (\<lambda>t. now - t < rateLimitWindowMs s) (requestTimestamps s) @ [now]\<rparr>"
    by (simp add: isRateLimited_eq Let_def split: if_splits)
  then show ?thesis
    by (rule exI [where x = "filter (\<lambda>t. now - t < rateLimitWindowMs s) (requestTimestamps s) @ [now]"])
qed

lemma isRateLimited_cases:
  obtains b ts where "isRateLimited now s = (b, s\<lparr>requestTimestamps := ts\<rparr>)"
  using isRateLimited_only_timestamps [of now s] by (metis prod.collapse)

lemma noPending_sync:
  "noPending rt \<Longrightarrow> noPending (processSendFrom now d orig i le rt)"
  "noPending rt' \<Longrightarrow> noPending (processQueue now' rt')"
  "noPending rt'' \<Longrightarrow> noPending (drainLoop now'' rt'')"
proof (induction now d orig i le rt and now' rt' and now'' rt''
       rule: processSendFrom_processQueue_drainLoop.induct)
  case (1 now d orig i le rt)
  show ?case
  proof (cases rule: providerLoop_cases [of now d orig i le rt])
    case (Awaiting cb cs j idx p)
    then show ?thesis using "1.prems"
      by (subst processSendFrom.simps) (simp add: noPending_def getEmailStatus_def)
  next
    case (Exhausted cb le1)
    let ?rt2 = "rt\<lparr>service := (service rt)\<lparr>circuitBreakers := cb,
                  emailStatuses := (emailStatuses (service rt))(emailId d \<mapsto> Failed)\<rparr>\<rparr>"
    have unf: "processSendFrom now d orig i le rt =
       deliver orig (Inl (allFailedMessage (emailId d) le1)) (processQueue now ?rt2)"
      using Exhausted by (subst processSendFrom.simps) simp
    from "1.prems" have "noPending ?rt2" by (simp add: noPending_def getEmailStatus_def)
    with "1.IH" [OF Exhausted [symmetric] refl] Exhausted
    have "noPending (processQueue now ?rt2)" by simp
    then show ?thesis unfolding unf
      by (simp add: deliver_def noPending_def getEmailStatus_def split: origin.splits)
  qed
next
  case (2 now rt)
  show ?case
  proof (cases "isProcessingQueue (service rt) \<or> emailQueue (service rt) = []")
    case True
    then show ?thesis using "2.prems" by (subst processQueue.simps) simp
  next
    case False
    with "2.prems" have "noPending (rt\<lparr>service := (service rt)\<lparr>isProcessingQueue := True\<rparr>\<rparr>)"
      by (simp add: noPending_def getEmailStatus_def)
    from "2.IH" [OF False this] False show ?thesis
      by (subst processQueue.simps) simp
  qed
next
  case (3 now rt)
  show ?case
  proof (cases "emailQueue (service rt)")
    case Nil
    then show ?thesis using "3.prems"
      by (subst drainLoop.simps) (simp add: leaveDrain_def noPending_def getEmailStatus_def Let_def)
  next
    case (Cons entry rest)
    obtain b ts where rl: "isRateLimited now (service rt) = (b, (service rt)\<lparr>requestTimestamps := ts\<rparr>)"
      by (rule isRateLimited_cases)
    show ?thesis
    proof (cases b)
      case True
      then show ?thesis using "3.prems" Cons rl
        by (subst drainLoop.simps) (simp add: leaveDrain_def noPending_def getEmailStatus_def Let_def)
    next
      case False
      have "noPending (rt\<lparr>service := (service rt)\<lparr>requestTimestamps := ts, emailQueue := rest\<rparr>\<rparr>)"
        using "3.prems" by (simp add: noPending_def getEmailStatus_def)
      with "3.IH" [OF Cons rl [symmetric]] False
      have "noPending (processSendFrom now (fst entry) (FromQueue (snd entry)) 0 None
               (rt\<lparr>service := (service rt)\<lparr>requestTimestamps := ts, emailQueue := rest\<rparr>\<rparr>))"
        by simp
      then show ?thesis using Cons rl False by (subst drainLoop.simps) simp
    qed
  qed
qed

lemma promises_sync:
  "mset (allPromises (processSendFrom now d orig i le rt))
      = mset (allPromises rt) + {#originPromise orig#}
   \<and> nextPromise (processSendFrom now d orig i le rt) = nextPromise rt"
  "mset (allPromises (processQueue now' rt')) = mset (allPromises rt')
   \<and> nextPromise (processQueue now' rt') = nextPromise rt'"
  "mset (allPromises (drainLoop now'' rt'')) = mset (allPromises rt'')
   \<and> nextPromise (drainLoop now'' rt'') = nextPromise rt''"
proof (induction now d orig i le rt and now' rt' and now'' rt''
       rule: processSendFrom_processQueue_drainLoop.induct)
  case (1 now d orig i le rt)
  show ?case
  proof (cases rule: providerLoop_cases [of now d orig i le rt])
    case (Awaiting cb cs j idx p)
    then show ?thesis
      by (subst (1 2) processSendFrom.simps) (simp add: allPromises_def)
  next
    case (Exhausted cb le1)
    let ?rt2 = "rt\<lparr>service := (service rt)\<lparr>circuitBreakers := cb,
                  emailStatuses := (emailStatuses (service rt))(emailId d \<mapsto> Failed)\<rparr>\<rparr>"
    have unf: "processSendFrom now d orig i le rt =
       deliver orig (Inl (allFailedMessage (emailId d) le1)) (processQueue now ?rt2)"
      using Exhausted by (subst processSendFrom.simps) simp
    have same: "allPromises ?rt2 = allPromises rt" "nextPromise ?rt2 = nextPromise rt"
      by (simp_all add: allPromises_def)
    from "1.IH" [OF Exhausted [symmetric] refl] Exhausted
    have "mset (allPromises (processQueue now ?rt2)) = mset (allPromises ?rt2)
          \<and> nextPromise (processQueue now ?rt2) = nextPromise ?rt2" by simp
    with same have q: "mset (allPromises (processQueue now ?rt2)) = mset (allPromises rt)"
       "nextPromise (processQueue now ?rt2) = nextPromise rt" by simp_all
    have "mset (allPromises (deliver orig out rt3)) = mset (allPromises rt3) + {#originPromise orig#}
          \<and> nextPromise (deliver orig out rt3) = nextPromise rt3" for out rt3
      by (cases orig) (simp_all add: deliver_def allPromises_def)
    with q show ?thesis unfolding unf by simp
  qed
next
  case (2 now rt)
  show ?case
  proof (cases "isProcessingQueue (service rt) \<or> emailQueue (service rt) = []")
    case True
    then show ?thesis by (subst (1 2) processQueue.simps) simp
  next
    case False
    have same: "allPromises (rt\<lparr>service := (service rt)\<lparr>isProcessingQueue := True\<rparr>\<rparr>) = allPromises rt"
      by (simp add: allPromises_def)
    from "2.IH" [OF False] False same show ?thesis
      by (subst (1 2) processQueue.simps) simp
  qed
next
  case (3 now rt)
  have leave: "allPromises (leaveDrain now rt3) = allPromises rt3
      \<and> nextPromise (leaveDrain now rt3) = nextPromise rt3" for rt3
    by (simp add: leaveDrain_def allPromises_def Let_def)
  show ?case
  proof (cases "emailQueue (service rt)")
    case Nil
    then show ?thesis using leave [of rt]
      by (subst (1 2) drainLoop.simps) simp
  next
    case (Cons entry rest)
    obtain b ts where rl: "isRateLimited now (service rt) = (b, (service rt)\<lparr>requestTimestamps := ts\<rparr>)"
      by (rule isRateLimited_cases)
    show ?thesis
    proof (cases b)
      case True
      have "allPromises (rt\<lparr>service := (service rt)\<lparr>requestTimestamps := ts\<rparr>\<rparr>) = allPromises rt"
        by (simp add: allPromises_def)
      then show ?thesis
        using True Cons rl leave [of "rt\<lparr>service := (service rt)\<lparr>requestTimestamps := ts\<rparr>\<rparr>"]
        by (subst (1 2) drainLoop.simps) simp
    next
      case False
      let ?rt1 = "rt\<lparr>service := (service rt)\<lparr>requestTimestamps := ts, emailQueue := rest\<rparr>\<rparr>"
      have a: "mset (allPromises ?rt1) + {#snd entry#} = mset (allPromises rt)"
        using Cons by (simp add: allPromises_def)
      from "3.IH" [OF Cons rl [symmetric]] False
      have "mset (allPromises (processSendFrom now (fst entry) (FromQueue (snd entry)) 0 None ?rt1))
               = mset (allPromises ?rt1) + {#snd entry#}
            \<and> nextPromise (processSendFrom now (fst entry) (FromQueue (snd entry)) 0 None ?rt1)
               = nextPromise ?rt1"
        by simp
      with a show ?thesis using Cons rl False by (subst (1 2) drainLoop.simps) simp
    qed
  qed
qed


lemma recordSuccess_only_circuits: "\<exists>cb. recordSuccess p s = s\<lparr>circuitBreakers := cb\<rparr>"
proof (cases "circuitBreakers s p")
  case None
  then have "recordSuccess p s = s\<lparr>circuitBreakers := circuitBreakers s\<rparr>"
    by (simp add: recordSuccess_def)
  then show ?thesis by (rule exI [where x = "circuitBreakers s"])
next
  case (Some st)
  then have "recordSuccess p s = s\<lparr>circuitBreakers :=
      (circuitBreakers s)(p \<mapsto> st\<lparr>isOpen := False, failureCount := 0, halfOpenAttempts := 0\<rparr>)\<rparr>"
    by (simp add: recordSuccess_def)
  then show ?thesis
    by (rule exI [where x = "(circuitBreakers s)(p \<mapsto> st\<lparr>isOpen := False, failureCount := 0, halfOpenAttempts := 0\<rparr>)"])
qed

lemma recordFailure_only_circuits: "\<exists>cb. recordFailure now p s = s\<lparr>circuitBreakers := cb\<rparr>"
proof (cases "circuitBreakers s p")
  case None
  then have "recordFailure now p s = s\<lparr>circuitBreakers := circuitBreakers s\<rparr>"
    by (simp add: recordFailure_def)
  then show ?thesis by (rule exI [where x = "circuitBreakers s"])
next
  case (Some st)
  define st2 where "st2 =
     (if \<not> isOpen st \<and> failureCount st + 1 \<ge> circuitBreakerThreshold s
      then st\<lparr>failureCount := failureCount st + 1, lastFailureTime := now, isOpen := True\<rparr>
      else st\<lparr>failureCount := failureCount st + 1, lastFailureTime := now\<rparr>)"
  from Some have "recordFailure now p s = s\<lparr>circuitBreakers := (circuitBreakers s)(p \<mapsto> st2)\<rparr>"
    by (simp add: recordFailure_def Let_def st2_def)
  then show ?thesis by (rule exI [where x = "(circuitBreakers s)(p \<mapsto> st2)"])
qed

lemma filter_remove_nth:
  assumes "k < length xs"
  shows "length (filter P (take k xs @ drop (Suc k) xs)) + (if P (xs ! k) then 1 else 0)
           = length (filter P xs)"
proof -
  have "xs = take k xs @ xs ! k # drop (Suc k) xs" using assms by (rule id_take_nth_drop)
  then have "length (filter P xs) = length (filter P (take k xs @ xs ! k # drop (Suc k) xs))"
    by simp
  then show ?thesis by simp
qed

lemma mset_remove_nth:
  assumes "k < length xs"
  shows "mset (map f (take k xs @ drop (Suc k) xs)) + {#f (xs ! k)#} = mset (map f xs)"
proof -
  have "xs = take k xs @ xs ! k # drop (Suc k) xs" using assms by (rule id_take_nth_drop)
  then have "mset (map f xs) = mset (map f (take k xs @ xs ! k # drop (Suc k) xs))"
    by simp
  then show ?thesis by simp
qed

lemma sendEmail_early:
  "\<not> validEmail d \<or> emailId d \<in> sentEmailIds (service rt) \<Longrightarrow> snd (sendEmail now d rt) = rt"
  by (auto simp: sendEmail_def validEmail_def)

lemma sendEmail_deferred:
  assumes "validEmail d" "emailId d \<notin> sentEmailIds (service rt)"
    and "isRateLimited now (service rt) = (True, s1)"
  shows "sendEmail now d rt =
           (Deferred (nextPromise rt),
            processQueue now
              (rt\<lparr>service := s1\<lparr>emailQueue := emailQueue s1 @ [(d, nextPromise rt)]\<rparr>,
                  nextPromise := nextPromise rt + 1\<rparr>))"
  using assms by (simp add: sendEmail_def validEmail_def)

lemma sendEmail_started:
  assumes "validEmail d" "emailId d \<notin> sentEmailIds (service rt)"
    and "isRateLimited now (service rt) = (False, s1)"
  shows "sendEmail now d rt =
           (Started (nextPromise rt),
            processSendFrom now d (Direct (nextPromise rt)) 0 None
              (rt\<lparr>service := s1\<lparr>sentEmailIds := insert (emailId d) (sentEmailIds s1),
                                 emailStatuses := (emailStatuses s1)(emailId d \<mapsto> Processing)\<rparr>,
                  nextPromise := nextPromise rt + 1\<rparr>))"
  using assms by (simp add: sendEmail_def validEmail_def)

lemma sendEmail_wellFormed:
  assumes wf: "wellFormed rt"
  shows "wellFormed (snd (sendEmail now d rt))"
proof (cases "\<not> validEmail d \<or> emailId d \<in> sentEmailIds (service rt)")
  case True
  then show ?thesis using wf by (simp add: sendEmail_early)
next
  case False
  then have ok: "validEmail d" "emailId d \<notin> sentEmailIds (service rt)" by simp_all
  obtain b ts where rl: "isRateLimited now (service rt) = (b, (service rt)\<lparr>requestTimestamps := ts\<rparr>)"
    by (rule isRateLimited_cases)
  let ?np = "nextPromise rt"
  let ?s1 = "(service rt)\<lparr>requestTimestamps := ts\<rparr>"
  show ?thesis
  proof (cases b)
    case True
    let ?rt1 = "rt\<lparr>service := ?s1\<lparr>emailQueue := emailQueue ?s1 @ [(d, ?np)]\<rparr>,
                   nextPromise := ?np + 1\<rparr>"
    have unf: "snd (sendEmail now d rt) = processQueue now ?rt1"
      using sendEmail_deferred [OF ok, of now ?s1] rl True by simp
    have a: "drainConsistent ?rt1" "noPending ?rt1"
      using wf by (simp_all add: wellFormed_def drainConsistent_def drainPasses_def noPending_def getEmailStatus_def)
    have b: "mset (allPromises ?rt1) = mset [0..<nextPromise ?rt1]"
      using wf by (simp add: wellFormed_def allPromises_def)
    show ?thesis unfolding unf wellFormed_def
      using drain_sync(2) [OF a(1)] noPending_sync(2) [OF a(2)] promises_sync(2) [of now ?rt1] b
      by simp
  next
    case False
    let ?rt1 = "rt\<lparr>service := ?s1\<lparr>sentEmailIds := insert (emailId d) (sentEmailIds ?s1),
                                 emailStatuses := (emailStatuses ?s1)(emailId d \<mapsto> Processing)\<rparr>,
                  nextPromise := ?np + 1\<rparr>"
    have unf: "snd (sendEmail now d rt) = processSendFrom now d (Direct ?np) 0 None ?rt1"
      using sendEmail_started [OF ok, of now ?s1] rl False by simp
    have a: "drainConsistent ?rt1" "noPending ?rt1"
      using wf by (simp_all add: wellFormed_def drainConsistent_def drainPasses_def noPending_def getEmailStatus_def)
    have b: "mset (allPromises ?rt1) + {#?np#} = mset [0..<nextPromise ?rt1]"
      using wf by (simp add: wellFormed_def allPromises_def)
    have c: "drainConsistent (processSendFrom now d (Direct ?np) 0 None ?rt1)"
      by (rule drain_sync(1)) (use a(1) in simp)
    show ?thesis unfolding unf wellFormed_def
      using c noPending_sync(1) [OF a(2)] promises_sync(1) [of now d "Direct ?np" 0 None ?rt1] b
      by simp
  qed
qed

lemma removeFrame_drainPasses:
  "k < length (frames rt) \<Longrightarrow>
     drainPasses (removeFrame k rt) + (if isDrainFrame (frames rt ! k) then 1 else 0) = drainPasses rt"
  using filter_remove_nth [of k "frames rt" isDrainFrame]
  by (simp add: drainPasses_def removeFrame_def)

lemma removeFrame_promises:
  "k < length (frames rt) \<Longrightarrow>
     mset (allPromises (removeFrame k rt)) + {#framePromise (frames rt ! k)#} = mset (allPromises rt)"
  using mset_remove_nth [of k "frames rt" framePromise]
  by (simp add: allPromises_def removeFrame_def)

lemma removeFrame_fields [simp]:
  "service (removeFrame k rt) = service rt"
  "settled (removeFrame k rt) = settled rt"
  "nextPromise (removeFrame k rt) = nextPromise rt"
  "timers (removeFrame k rt) = timers rt"
  "contacts (removeFrame k rt) = contacts rt"
  by (simp_all add: removeFrame_def)

lemma deliver_fields [simp]:
  "service (deliver orig out rt) = service rt"
  "nextPromise (deliver orig out rt) = nextPromise rt"
  by (cases orig; simp add: deliver_def)+

lemma deliver_promises:
  "mset (allPromises (deliver orig out rt)) = mset (allPromises rt) + {#originPromise orig#}"
  by (cases orig) (simp_all add: deliver_def allPromises_def)

lemma deliver_drainPasses:
  "drainPasses (deliver orig out rt) =
     drainPasses rt + (case orig of Direct q \<Rightarrow> 0 | FromQueue q \<Rightarrow> 1)"
  by (cases orig) (simp_all add: deliver_def drainPasses_def)

lemma filter_update_same:
  assumes "k < length xs" "P y = P (xs ! k)"
  shows "length (filter P (xs[k := y])) = length (filter P xs)"
proof -
  have a: "xs[k := y] = take k xs @ y # drop (Suc k) xs"
    using assms(1) by (rule upd_conv_take_nth_drop)
  have "xs = take k xs @ xs ! k # drop (Suc k) xs" using assms(1) by (rule id_take_nth_drop)
  then have "length (filter P xs) = length (filter P (take k xs @ xs ! k # drop (Suc k) xs))"
    by simp
  then show ?thesis unfolding a using assms(2) by simp
qed

lemma map_update_same:
  assumes "k < length xs" "f y = f (xs ! k)"
  shows "map f (xs[k := y]) = map f xs"
proof -
  have "map f (xs[k := y]) = (map f xs)[k := (map f xs) ! k]"
    using assms by (simp add: map_update)
  then show ?thesis by simp
qed

lemma retry_progress_wellFormed:
  assumes wf: "wellFormed rt" and k: "k < length (frames rt)"
    and fr: "frames rt ! k = AwaitRetry d i idx p orig st"
  shows "wellFormed (rt\<lparr>frames := (frames rt)[k := AwaitRetry d i idx p orig st'], contacts := cs\<rparr>)"
proof -
  let ?f = "AwaitRetry d i idx p orig st'"
  have "length (filter isDrainFrame ((frames rt)[k := ?f])) = length (filter isDrainFrame (frames rt))"
    by (rule filter_update_same [OF k]) (simp add: fr)
  moreover have "map framePromise ((frames rt)[k := ?f]) = map framePromise (frames rt)"
    by (rule map_update_same [OF k]) (simp add: fr)
  ultimately show ?thesis using wf
    by (simp add: wellFormed_def drainConsistent_def drainPasses_def noPending_def
          getEmailStatus_def allPromises_def)
qed

lemma invocationSettles_frame:
  assumes "invocationSettles now k outcome rt = Some rt'"
  obtains d i idx p orig attempt currentDelay where
    "k < length (frames rt)"
    "frames rt ! k = AwaitRetry d i idx p orig (Invoking attempt currentDelay)"
    "rt' = rt\<lparr>frames := (frames rt)[k := AwaitRetry d i idx p orig
               (invocationSettled (maxRetries (service rt)) (emailId d) now attempt currentDelay outcome)]\<rparr>"
  using assms
  by (auto simp: invocationSettles_def split: if_splits frame.splits retryState.splits)

lemma sleepEnds_frame:
  assumes "sleepEnds now k rt = Some rt'"
  obtains d i idx p orig attempt currentDelay lastError due where
    "k < length (frames rt)"
    "frames rt ! k = AwaitRetry d i idx p orig (Sleeping attempt currentDelay lastError due)"
    "due \<le> now"
    "rt' = rt\<lparr>frames := (frames rt)[k := AwaitRetry d i idx p orig
               (sleepEnded (maxRetries (service rt)) (emailId d) attempt currentDelay lastError)],
             contacts := contacts rt
               @ (if int attempt \<le> maxRetries (service rt) then [(p, d)] else [])\<rparr>"
  using assms
  by (auto simp: sleepEnds_def split: if_splits frame.splits retryState.splits)

lemma resumeRetry_frame:
  assumes "resumeRetry now k rt = Some rt'"
  obtains d i idx p orig outcome where
    "k < length (frames rt)"
    "frames rt ! k = AwaitRetry d i idx p orig (Finished outcome)"
  using assms
  by (auto simp: resumeRetry_def split: if_splits frame.splits retryState.splits)

lemma invocationSettles_wellFormed:
  assumes wf: "wellFormed rt" and res: "invocationSettles now k outcome rt = Some rt'"
  shows "wellFormed rt'"
proof -
  from res obtain d i idx p orig attempt currentDelay where
    k: "k < length (frames rt)"
    and fr: "frames rt ! k = AwaitRetry d i idx p orig (Invoking attempt currentDelay)"
    and r: "rt' = rt\<lparr>frames := (frames rt)[k := AwaitRetry d i idx p orig
               (invocationSettled (maxRetries (service rt)) (emailId d) now attempt currentDelay outcome)]\<rparr>"
    by (rule invocationSettles_frame)
  from retry_progress_wellFormed [OF wf k fr, where cs = "contacts rt"] show ?thesis unfolding r by simp
qed

lemma sleepEnds_wellFormed:
  assumes wf: "wellFormed rt" and res: "sleepEnds now k rt = Some rt'"
  shows "wellFormed rt'"
proof -
  from res obtain d i idx p orig attempt currentDelay lastError due where
    k: "k < length (frames rt)"
    and fr: "frames rt ! k = AwaitRetry d i idx p orig (Sleeping attempt currentDelay lastError due)"
    and r: "rt' = rt\<lparr>frames := (frames rt)[k := AwaitRetry d i idx p orig
               (sleepEnded (maxRetries (service rt)) (emailId d) attempt currentDelay lastError)],
             contacts := contacts rt
               @ (if int attempt \<le> maxRetries (service rt) then [(p, d)] else [])\<rparr>"
    by (rule sleepEnds_frame)
  from retry_progress_wellFormed [OF wf k fr] show ?thesis unfolding r by simp
qed

lemma resumeRetry_wellFormed:
  assumes wf: "wellFormed rt" and res: "resumeRetry now k rt = Some rt'"
  shows "wellFormed rt'"
proof -
  from res obtain d i idx p orig outcome where k: "k < length (frames rt)"
    and fr: "frames rt ! k = AwaitRetry d i idx p orig (Finished outcome)"
    by (rule resumeRetry_frame)
  define rt1 where "rt1 = removeFrame k rt"
  have dp: "drainPasses rt1 + (if isDrainFrame (frames rt ! k) then 1 else 0) = drainPasses rt"
    using removeFrame_drainPasses [OF k] by (simp add: rt1_def)
  have pr: "mset (allPromises rt1) + {#originPromise orig#} = mset (allPromises rt)"
    using removeFrame_promises [OF k] fr by (simp add: rt1_def)
  have sv: "service rt1 = service rt" "nextPromise rt1 = nextPromise rt"
    by (simp_all add: rt1_def)
  have entry: "case orig of Direct q \<Rightarrow> drainConsistent rt1 | FromQueue q \<Rightarrow> midDrain rt1"
  proof (cases orig)
    case (Direct q)
    with dp fr wf sv show ?thesis by (simp add: wellFormed_def drainConsistent_def)
  next
    case (FromQueue q)
    with dp fr wf sv show ?thesis
      by (auto simp: wellFormed_def drainConsistent_def midDrain_def split: if_splits)
  qed
  have np: "noPending rt1" using wf sv by (simp add: wellFormed_def noPending_def getEmailStatus_def)
  show ?thesis
  proof (cases outcome)
    case (Inr result)
    obtain cb where rs: "recordSuccess p (service rt1) = (service rt1)\<lparr>circuitBreakers := cb\<rparr>"
      using recordSuccess_only_circuits by blast
    define rt2 where "rt2 = rt1\<lparr>service := (service rt1)\<lparr>circuitBreakers := cb,
                  emailStatuses := (emailStatuses (service rt1))(emailId d \<mapsto> Sent),
                  currentProviderIndex := idx\<rparr>\<rparr>"
    have r: "rt' = deliver orig (Inr result) (processQueue now rt2)"
      using res k fr Inr rs
      by (simp add: resumeRetry_def Let_def rt2_def rt1_def)
    have np2: "noPending rt2" using np by (simp add: rt2_def noPending_def getEmailStatus_def)
    have pr2: "allPromises rt2 = allPromises rt1" "nextPromise rt2 = nextPromise rt1"
      by (simp_all add: rt2_def allPromises_def)
    have dc: "drainConsistent rt'"
    proof (cases orig)
      case (Direct q)
      with entry have "drainConsistent rt2" by (simp add: rt2_def drainConsistent_def drainPasses_def)
      from drain_sync(2) [OF this] show ?thesis unfolding r using Direct
        by (simp add: drainConsistent_def deliver_drainPasses)
    next
      case (FromQueue q)
      with entry have m: "midDrain rt2" by (simp add: rt2_def midDrain_def drainPasses_def)
      then have "processQueue now rt2 = rt2"
        by (subst processQueue.simps) (simp add: midDrain_def)
      then show ?thesis unfolding r using FromQueue m
        by (simp add: drainConsistent_def midDrain_def deliver_drainPasses)
    qed
    have "noPending (processQueue now rt2)" by (rule noPending_sync(2) [OF np2])
    then have npr: "noPending rt'" unfolding r by (simp add: noPending_def getEmailStatus_def)
    have "mset (allPromises rt') = mset (allPromises rt)"
      unfolding r deliver_promises using promises_sync(2) [of now rt2] pr pr2 by simp
    moreover have "nextPromise rt' = nextPromise rt"
      unfolding r using promises_sync(2) [of now rt2] pr2 sv by simp
    ultimately show ?thesis using dc npr wf by (simp add: wellFormed_def)
  next
    case (Inl error)
    obtain cb where rf: "recordFailure now p (service rt1) = (service rt1)\<lparr>circuitBreakers := cb\<rparr>"
      using recordFailure_only_circuits by blast
    define rt2 where "rt2 = rt1\<lparr>service := (service rt1)\<lparr>circuitBreakers := cb\<rparr>\<rparr>"
    have r: "rt' = processSendFrom now d orig (i + 1) (Some error) rt2"
      using res k fr Inl rf
      by (simp add: resumeRetry_def Let_def rt2_def rt1_def)
    have np2: "noPending rt2" using np by (simp add: rt2_def noPending_def getEmailStatus_def)
    have pr2: "allPromises rt2 = allPromises rt1" "nextPromise rt2 = nextPromise rt1"
      by (simp_all add: rt2_def allPromises_def)
    have "case orig of Direct q \<Rightarrow> drainConsistent rt2 | FromQueue q \<Rightarrow> midDrain rt2"
      using entry by (cases orig) (simp_all add: rt2_def drainConsistent_def midDrain_def drainPasses_def)
    then have dc: "drainConsistent rt'" unfolding r by (rule drain_sync(1))
    have npr: "noPending rt'" unfolding r by (rule noPending_sync(1) [OF np2])
    have "mset (allPromises rt') = mset (allPromises rt)"
      unfolding r using promises_sync(1) [of now d orig "i + 1" "Some error" rt2] pr pr2 by simp
    moreover have "nextPromise rt' = nextPromise rt"
      unfolding r using promises_sync(1) [of now d orig "i + 1" "Some error" rt2] pr2 sv by simp
    ultimately show ?thesis using dc npr wf by (simp add: wellFormed_def)
  qed
qed

lemma resumeDrain_wellFormed:
  assumes wf: "wellFormed rt" and res: "resumeDrain now k rt = Some rt'"
  shows "wellFormed rt'"
proof -
  from res have k: "k < length (frames rt)"
    by (simp add: resumeDrain_def split: if_splits)
  from res k obtain q out where fr: "frames rt ! k = AwaitSend q out"
    by (cases "frames rt ! k") (simp_all add: resumeDrain_def)
  define rt1 where "rt1 = (removeFrame k rt)\<lparr>settled := settled rt @ [(q, out)]\<rparr>"
  have r: "rt' = drainLoop now rt1" using res k fr by (simp add: resumeDrain_def rt1_def)
  have dp: "drainPasses rt1 + 1 = drainPasses rt"
    using removeFrame_drainPasses [OF k] fr by (simp add: rt1_def drainPasses_def)
  have pr: "mset (allPromises rt1) = mset (allPromises rt)"
    using removeFrame_promises [OF k] fr by (simp add: rt1_def allPromises_def)
  have sv: "service rt1 = service rt" "nextPromise rt1 = nextPromise rt"
    by (simp_all add: rt1_def)
  have "midDrain rt1" using dp wf sv
    by (auto simp: wellFormed_def drainConsistent_def midDrain_def split: if_splits)
  then have dc: "drainConsistent rt'" unfolding r by (rule drain_sync(3))
  have "noPending rt1" using wf sv by (simp add: wellFormed_def noPending_def getEmailStatus_def)
  then have npr: "noPending rt'" unfolding r by (rule noPending_sync(3))
  show ?thesis using dc npr wf promises_sync(3) [of now rt1] pr sv
    by (simp add: wellFormed_def r)
qed

lemma timerFired_wellFormed:
  assumes wf: "wellFormed rt" and res: "timerFired now k rt = Some rt'"
  shows "wellFormed rt'"
proof -
  define rt1 where "rt1 = rt\<lparr>timers := take k (timers rt) @ drop (Suc k) (timers rt)\<rparr>"
  have r: "rt' = processQueue now rt1" using res by (simp add: timerFired_def rt1_def split: if_splits)
  have a: "drainConsistent rt1" "noPending rt1" "allPromises rt1 = allPromises rt"
    "nextPromise rt1 = nextPromise rt"
    using wf by (simp_all add: rt1_def wellFormed_def drainConsistent_def drainPasses_def
                   noPending_def getEmailStatus_def allPromises_def)
  show ?thesis unfolding r wellFormed_def
    using drain_sync(2) [OF a(1)] noPending_sync(2) [OF a(2)] promises_sync(2) [of now rt1] a(3,4) wf
    by (simp add: wellFormed_def)
qed

lemma clock_wellFormed: "wellFormed (rt\<lparr>clock := now\<rparr>) = wellFormed rt"
  by (simp add: wellFormed_def drainConsistent_def drainPasses_def noPending_def
        getEmailStatus_def allPromises_def)

lemma step_wellFormed:
  assumes "wellFormed rt" "step now ev rt = Some rt'"
  shows "wellFormed rt'"
proof -
  have wf: "wellFormed (rt\<lparr>clock := now\<rparr>)" using assms(1) by (simp add: clock_wellFormed)
  show ?thesis
  proof (cases ev)
    case (Submit d)
    with assms(2) have "rt' = snd (sendEmail now d (rt\<lparr>clock := now\<rparr>))"
      by (simp add: step_def split: if_splits)
    then show ?thesis using sendEmail_wellFormed [OF wf] by simp
  next
    case (InvocationSettles k outcome)
    with assms(2) have "invocationSettles now k outcome (rt\<lparr>clock := now\<rparr>) = Some rt'"
      by (simp add: step_def split: if_splits)
    then show ?thesis by (rule invocationSettles_wellFormed [OF wf])
  next
    case (SleepEnds k)
    with assms(2) have "sleepEnds now k (rt\<lparr>clock := now\<rparr>) = Some rt'"
      by (simp add: step_def split: if_splits)
    then show ?thesis by (rule sleepEnds_wellFormed [OF wf])
  next
    case (RetryResumes k)
    with assms(2) have "resumeRetry now k (rt\<lparr>clock := now\<rparr>) = Some rt'"
      by (simp add: step_def split: if_splits)
    then show ?thesis by (rule resumeRetry_wellFormed [OF wf])
  next
    case (DrainResumes k)
    with assms(2) have "resumeDrain now k (rt\<lparr>clock := now\<rparr>) = Some rt'"
      by (simp add: step_def split: if_splits)
    then show ?thesis by (rule resumeDrain_wellFormed [OF wf])
  next
    case (TimerFires k)
    with assms(2) have "timerFired now k (rt\<lparr>clock := now\<rparr>) = Some rt'"
      by (simp add: step_def split: if_splits)
    then show ?thesis by (rule timerFired_wellFormed [OF wf])
  qed
qed

lemma run_wellFormed:
  "wellFormed rt \<Longrightarrow> run evs rt = Some rt' \<Longrightarrow> wellFormed rt'"
proof (induction evs arbitrary: rt)
  case Nil
  then show ?case by simp
next
  case (Cons e evs)
  obtain now ev where e: "e = (now, ev)" by (cases e)
  with Cons.prems(2) obtain rt1 where s: "step now ev rt = Some rt1" and r: "run evs rt1 = Some rt'"
    by (auto split: option.splits)
  from step_wellFormed [OF Cons.prems(1) s] r show ?case by (rule Cons.IH)
qed

lemma start_wellFormed:
  "constructor ps options = Inr s \<Longrightarrow> wellFormed (start s)"
  by (auto simp: constructor_def start_def wellFormed_def drainConsistent_def drainPasses_def
        noPending_def getEmailStatus_def allPromises_def split: if_splits)

section \<open>Properties of the pending queue\<close>















section \<open>Blocked providers are not attempted\<close>









section \<open>The dispatcher claims\<close>



lemma reachable_wellFormed:
  assumes "constructor ps options = Inr s" "run evs (start s) = Some rt"
  shows "wellFormed rt"
  using run_wellFormed [OF start_wellFormed [OF assms(1)] assms(2)] .

text \<open>
  The status \<^verbatim>\<open>'pending'\<close> of the type \<^verbatim>\<open>EmailStatus\<close> is never assigned: whatever
  the service has done, the status of a tracked id is \<^verbatim>\<open>'processing'\<close>, \<^verbatim>\<open>'sent'\<close>
  or \<^verbatim>\<open>'failed'\<close>.
\<close>

lemma status_never_pending:
  assumes "constructor ps options = Inr s" "run evs (start s) = Some rt"
    and "getEmailStatus emailId' rt = Some st"
  shows "st = Processing \<or> st = Sent \<or> st = Failed"
proof -
  from assms(1,2) have "wellFormed rt" by (rule reachable_wellFormed)
  then have "getEmailStatus emailId' rt \<noteq> Some Pending"
    by (simp add: wellFormed_def noPending_def)
  with assms(3) show ?thesis by (cases st) simp_all
qed

text \<open>
  Claim C1: two calls of \<^verbatim>\<open>sendEmail\<close> with the same id contact the providers for one
  of them only, also when the first was denied admission and went through the pending
  queue. The code marks an id in \<open>sentEmailIds\<close> only on the path admitted at once; the
  queue path calls \<^verbatim>\<open>_processSend\<close> without marking it. In the run below \<open>y\<close> is
  queued, drained and sent; the second \<^verbatim>\<open>sendEmail\<close> for \<open>y\<close> is not recognised
  (it starts a send instead of returning the notice) and the provider is contacted for
  \<open>y\<close> a second time.
\<close>

theorem C1_queued_id_is_contacted_twice:
  "\<not> Option.is_none (run queuedThenSentAgain (start smallService))
   \<and> queuedIds (after [(0, Submit mailX), (1, Submit mailY)] smallService) = [''y'']
   \<and> contactedIds (after queuedThenSent smallService) = [''x'', ''y'']
   \<and> fst (sendEmail 3000 mailY (after queuedThenSent smallService)) = Started 2
   \<and> contactedIds (after queuedThenSentAgain smallService) = [''x'', ''y'', ''y'']"
  by code_simp

text \<open>
  Claim C2: once the status of an id is \<^verbatim>\<open>'sent'\<close> or \<^verbatim>\<open>'failed'\<close> nothing sets it
  back to \<^verbatim>\<open>'processing'\<close>. In the same run the status of \<open>y\<close> is \<^verbatim>\<open>'sent'\<close> after
  the queue has processed it, and the second \<^verbatim>\<open>sendEmail\<close> for \<open>y\<close> sets it to
  \<^verbatim>\<open>'processing'\<close>.
\<close>

theorem C2_sent_status_reverts_to_processing:
  "\<not> Option.is_none (run queuedThenSentAgain (start smallService))
   \<and> getEmailStatus ''y'' (after queuedThenSent smallService) = Some Sent
   \<and> getEmailStatus ''y'' (after queuedThenSentAgain smallService) = Some Processing"
  by code_simp

text \<open>
  Claim C4: once the timeout has passed the blocking check moves an open circuit to
  half-open and admits exactly one probe. The check sets \<open>isOpen\<close> to false and
  \<open>halfOpenAttempts\<close> to 0, but nothing counts the probes: until an outcome is recorded
  every check admits. In the run below the circuit is open (two failures, the last at
  550 ms); \<open>a4\<close> at 700 ms is admitted as the probe, and \<open>a5\<close> at 701 ms, while that
  probe is still under way, is admitted as well: two retry sequences against the provider
  are under way at once.
\<close>

theorem C4_two_probes_in_half_open:
  "\<not> Option.is_none (run twoProbes (start breakerService))
   \<and> circuitOf providerA (after blockedSend breakerService)
       = Some \<lparr>isOpen = True, lastFailureTime = 550, failureCount = 2, halfOpenAttempts = 0\<rparr>
   \<and> contactedIds (after blockedSend breakerService) = [''a1'', ''a1'', ''a2'', ''a2'']
   \<and> circuitOf providerA (after twoProbes breakerService)
       = Some \<lparr>isOpen = False, lastFailureTime = 550, failureCount = 2, halfOpenAttempts = 0\<rparr>
   \<and> map frameProvider (frames (after twoProbes breakerService)) = [Some providerA, Some providerA]
   \<and> contactedIds (after twoProbes breakerService) = [''a1'', ''a1'', ''a2'', ''a2'', ''a4'', ''a5'']"
  by code_simp

text \<open>
  Claim C10: no operation assigns the status \<^verbatim>\<open>'pending'\<close>, and while a task that was
  denied admission waits in the queue, the status of its id is undefined. The first half
  holds (\<open>status_never_pending\<close>). The second fails through the defect of C1: an id in
  the queue is not marked, so a second \<^verbatim>\<open>sendEmail\<close> with that id is admitted as new.
  In the run below \<open>y\<close> is queued at 1 ms and its status is undefined; at 1005 ms \<open>y\<close>
  is submitted again and a send is started for it; the first \<open>y\<close> still waits in the
  queue and the status of its id is \<^verbatim>\<open>'processing'\<close>.
\<close>

theorem C10_queued_id_has_status:
  "\<not> Option.is_none (run queuedWhileResent (start smallService))
   \<and> queuedIds (after queuedOnly smallService) = [''y'']
   \<and> getEmailStatus ''y'' (after queuedOnly smallService) = None
   \<and> fst (sendEmail 1005 mailY (after queuedOnly smallService)) = Started 2
   \<and> queuedIds (after queuedWhileResent smallService) = [''y'']
   \<and> getEmailStatus ''y'' (after queuedWhileResent smallService) = Some Processing"
  by code_simp






end
